theory Spec2Isabelle
  imports Main "HOL-Library.Word" "HOL-Library.AList" "HOL-Library.Multiset"
begin

section \<open>Common types\<close>

text \<open>
  Byte sequences (\<open>Vec<u8>\<close>, \<open>Mmap\<close>, \<open>Uint8Array\<close>) are lists of 8-bit words.
  Sizes, offsets and counts are \<open>usize\<close> in the Rust code and numbers in the
  JavaScript code; they are modelled as natural numbers.  Every intermediate value
  of the sampler is bounded by the length of the mapped file (see the bounds proved
  below), so no \<open>usize\<close> computation of the sampler wraps.
\<close>

type_synonym byte = "8 word"
type_synonym bytes = "byte list"

text \<open>The error enumeration of \<open>src/error.rs\<close>.\<close>

datatype AppError =
    FileNotFound string
  | FileTooLarge nat
  | FileAccess
  | SamplingFailed string
  | InvalidSampleSize nat
  | Internal
  | BadRequest string
  | ConnectionClosed
  | InvalidMessage

text \<open>
  A Rust function of type \<open>Result<T>\<close> returns \<open>Ok\<close>, returns \<open>Err\<close>, or panics
  (integer division by zero, a slice index out of range).  A panic is not an
  \<open>AppError\<close>; it is kept apart.
\<close>

datatype panic = DivideByZero | SliceIndexOutOfRange

datatype 'a outcome = Ok 'a | Err AppError | Panicked panic

section \<open>The uniform sampler (\<open>src/sampling/uniform.rs\<close>)\<close>

record SampleMetadata =
  original_size :: nat
  sample_size :: nat
  method_name :: string

record SampleResult =
  data :: bytes
  metadata :: SampleMetadata

text \<open>
  \<open>(target_size as f64).sqrt() as usize\<close>: the integer part of the square root
  (the parameter is written \<open>target_sz\<close> here: \<open>target_size\<close> is a constant of the
  word library).
  The conversion to \<open>f64\<close> is exact and the rounded square root truncates to the
  integer square root for every \<open>target_size\<close> below \<open>2^52\<close>; the model is the
  integer square root.
\<close>

primrec isqrt :: "nat \<Rightarrow> nat" where
  "isqrt 0 = 0"
| "isqrt (Suc n) = (let r = isqrt n in if Suc r * Suc r \<le> Suc n then Suc r else r)"

text \<open>
  \<open>for i in 0..windows_count { windows[i] += i * window_size; }\<close>
  The vector has exactly \<open>windows_count\<close> elements, so every index is in range.
\<close>

definition adjust :: "nat \<Rightarrow> nat \<Rightarrow> nat list \<Rightarrow> nat list" where
  "adjust windows_count window_size windows =
     fold (\<lambda>i ws. ws[i := ws ! i + i * window_size]) [0..<windows_count] windows"

text \<open>
  The random draws, the sort and the adjustment.  \<open>gen_range i m\<close> stands for the
  \<open>i\<close>-th call \<open>rng.gen_range(0..=m)\<close>; the contract of that call is
  \<open>gen_range i m \<le> m\<close>.  \<open>saturating_sub\<close> is the truncated subtraction of \<open>nat\<close>.
\<close>

definition window_offsets :: "nat \<Rightarrow> nat \<Rightarrow> nat \<Rightarrow> (nat \<Rightarrow> nat \<Rightarrow> nat) \<Rightarrow> nat list" where
  "window_offsets data_size windows_count window_size gen_range =
     (let max_offset = data_size - windows_count * window_size;
          windows = map (\<lambda>i. gen_range i max_offset) [0..<windows_count];
          windows = sort windows
      in adjust windows_count window_size windows)"

text \<open>
  \<open>data[offset..end]\<close> panics when \<open>offset > end\<close> or \<open>end > data.len()\<close>.
\<close>

definition slice :: "bytes \<Rightarrow> nat \<Rightarrow> nat \<Rightarrow> bytes outcome" where
  "slice d start stop =
     (if start \<le> stop \<and> stop \<le> length d then Ok (take (stop - start) (drop start d))
      else Panicked SliceIndexOutOfRange)"

text \<open>
  The parallel map over the windows: each window is cut out on its own; a panic in
  any of the closures is a panic of the whole call.
\<close>

fun extract_windows :: "bytes \<Rightarrow> nat \<Rightarrow> nat list \<Rightarrow> bytes list outcome" where
  "extract_windows d window_size [] = Ok []"
| "extract_windows d window_size (offset # rest) =
     (case slice d offset (min (offset + window_size) (length d)) of
        Ok chunk \<Rightarrow>
          (case extract_windows d window_size rest of
             Ok chunks \<Rightarrow> Ok (chunk # chunks)
           | Err e \<Rightarrow> Err e
           | Panicked p \<Rightarrow> Panicked p)
      | Err e \<Rightarrow> Err e
      | Panicked p \<Rightarrow> Panicked p)"

definition sample :: "bytes \<Rightarrow> nat \<Rightarrow> (nat \<Rightarrow> nat \<Rightarrow> nat) \<Rightarrow> SampleResult outcome" where
  "sample d target_sz gen_range =
     (let data_size = length d in
      if data_size \<le> target_sz then
        Ok \<lparr>data = d,
            metadata = \<lparr>original_size = data_size, sample_size = data_size,
                        method_name = ''full''\<rparr>\<rparr>
      else
        let window_size = isqrt target_sz in
        if window_size = 0 then Panicked DivideByZero
        else
          let windows_count = target_sz div window_size;
              windows = window_offsets data_size windows_count window_size gen_range
          in case extract_windows d window_size windows of
               Ok chunks \<Rightarrow>
                 (let result = concat chunks in
                  Ok \<lparr>data = result,
                      metadata = \<lparr>original_size = data_size, sample_size = length result,
                                  method_name = ''uniform''\<rparr>\<rparr>)
             | Err e \<Rightarrow> Err e
             | Panicked p \<Rightarrow> Panicked p)"

section \<open>The LRU cache (\<open>src/core/cache.rs\<close>)\<close>

text \<open>
  The \<open>HashMap<u64, CacheEntry>\<close> is an association list with pairwise distinct keys:
  \<open>map.get\<close> is \<open>map_of\<close>, \<open>map.remove\<close> is \<open>AList.delete\<close>, \<open>map.insert\<close> is
  \<open>AList.update\<close>, \<open>map.len\<close> is \<open>length\<close>.  The \<open>VecDeque<u64>\<close> is a list whose head
  is the front: \<open>retain\<close> is \<open>filter\<close>, \<open>push_back\<close> appends, \<open>pop_front\<close> takes the head.
  The mutex is not modelled: every operation holds the lock from its first to its
  last statement, so operations are atomic state transformers.  Capacities and
  lengths are natural numbers; the one sum the code forms, \<open>total_size + size\<close>, is
  below \<open>2^64\<close> whenever the capacity is below \<open>2^63\<close>, a byte vector being
  shorter than \<open>2^63\<close>.
\<close>

type_synonym key = "64 word"

record CacheEntry =
  entry_data :: bytes
  entry_size :: nat

record CacheStore =
  store_map :: "(key \<times> CacheEntry) list"
  order :: "key list"
  total_size :: nat

record Cache =
  capacity :: nat
  store :: CacheStore

record CacheStats =
  stats_entries :: nat
  stats_total_size :: nat
  stats_capacity :: nat

definition cache_new :: "nat \<Rightarrow> Cache" where
  "cache_new cap = \<lparr>capacity = cap, store = \<lparr>store_map = [], order = [], total_size = 0\<rparr>\<rparr>"

definition cache_get :: "Cache \<Rightarrow> key \<Rightarrow> bytes option \<times> Cache" where
  "cache_get c k =
     (case map_of (store_map (store c)) k of
        Some entry \<Rightarrow>
          (Some (entry_data entry),
           c\<lparr>store := (store c)\<lparr>order := filter (\<lambda>k'. k' \<noteq> k) (order (store c)) @ [k]\<rparr>\<rparr>)
      | None \<Rightarrow> (None, c))"

text \<open>
  \<open>if let Some(old_entry) = store.map.remove(&key) { ... }\<close>, the first step of \<open>put\<close>.
  \<open>total_size -= size\<close> is the truncated subtraction of \<open>nat\<close>; under the invariant
  \<open>cache_inv\<close> below the subtrahend never exceeds \<open>total_size\<close>.
\<close>

definition remove_existing :: "key \<Rightarrow> CacheStore \<Rightarrow> CacheStore" where
  "remove_existing k s =
     (case map_of (store_map s) k of
        Some old_entry \<Rightarrow>
          s\<lparr>store_map := AList.delete k (store_map s),
            total_size := total_size s - entry_size old_entry,
            order := filter (\<lambda>k'. k' \<noteq> k) (order s)\<rparr>
      | None \<Rightarrow> s)"

text \<open>The body of the eviction loop: \<open>pop_front\<close>, then \<open>map.remove\<close> of the popped key.\<close>

definition evict_front :: "CacheStore \<Rightarrow> CacheStore" where
  "evict_front s =
     (case order s of
        [] \<Rightarrow> s
      | evict_key # rest \<Rightarrow>
          (case map_of (store_map s) evict_key of
             Some entry \<Rightarrow>
               s\<lparr>order := rest,
                 store_map := AList.delete evict_key (store_map s),
                 total_size := total_size s - entry_size entry\<rparr>
           | None \<Rightarrow> s\<lparr>order := rest\<rparr>))"

text \<open>
  \<open>while store.total_size + size > self.capacity && !store.order.is_empty() { ... }\<close>
\<close>

function evict :: "nat \<Rightarrow> nat \<Rightarrow> CacheStore \<Rightarrow> CacheStore" where
  "evict cap sz s =
     (if total_size s + sz > cap \<and> order s \<noteq> [] then evict cap sz (evict_front s) else s)"
  by pat_completeness auto
termination
  by (relation "measure (\<lambda>(cap, sz, s). length (order s))")
     (auto simp: evict_front_def split: list.splits option.splits)

declare evict.simps [simp del]

definition cache_put :: "Cache \<Rightarrow> key \<Rightarrow> bytes \<Rightarrow> Cache" where
  "cache_put c k d =
     (let sz = length d;
          s = remove_existing k (store c);
          s = evict (capacity c) sz s;
          s = (if total_size s + sz \<le> capacity c then
                 s\<lparr>store_map := AList.update k \<lparr>entry_data = d, entry_size = sz\<rparr> (store_map s),
                   order := order s @ [k],
                   total_size := total_size s + sz\<rparr>
               else s)
      in c\<lparr>store := s\<rparr>)"

definition cache_clear :: "Cache \<Rightarrow> Cache" where
  "cache_clear c = c\<lparr>store := \<lparr>store_map = [], order = [], total_size = 0\<rparr>\<rparr>"

definition cache_stats :: "Cache \<Rightarrow> CacheStats" where
  "cache_stats c =
     \<lparr>stats_entries = length (store_map (store c)),
      stats_total_size = total_size (store c),
      stats_capacity = capacity c\<rparr>"

text \<open>A sequence of calls on one cache; \<open>get\<close> keeps only the new state here.\<close>

datatype cache_op = Get key | Put key bytes | Clear

fun apply_cache_op :: "Cache \<Rightarrow> cache_op \<Rightarrow> Cache" where
  "apply_cache_op c (Get k) = snd (cache_get c k)"
| "apply_cache_op c (Put k d) = cache_put c k d"
| "apply_cache_op c Clear = cache_clear c"

definition run_cache :: "Cache \<Rightarrow> cache_op list \<Rightarrow> Cache" where
  "run_cache c ops = foldl apply_cache_op c ops"

text \<open>
  The sum of the sizes of all stored entries, and the consistency of the three
  components of the store with each other and with the capacity.
\<close>

definition entries_size :: "CacheStore \<Rightarrow> nat" where
  "entries_size s = sum_list (map (\<lambda>(k, e). entry_size e) (store_map s))"

abbreviation sizes :: "(key \<times> CacheEntry) list \<Rightarrow> nat" where
  "sizes al \<equiv> sum_list (map (\<lambda>(k, e). entry_size e) al)"

definition store_ok :: "CacheStore \<Rightarrow> bool" where
  "store_ok s =
     (distinct (map fst (store_map s))
      \<and> distinct (order s)
      \<and> set (order s) = fst ` set (store_map s)
      \<and> list_all (\<lambda>(k, e). entry_size e = length (entry_data e)) (store_map s)
      \<and> total_size s = entries_size s)"

definition cache_inv :: "Cache \<Rightarrow> bool" where
  "cache_inv c = (store_ok (store c) \<and> total_size (store c) \<le> capacity c)"

section \<open>Chunked delivery (\<open>src/server/websocket.rs\<close>)\<close>

text \<open>
  \<open>protocol::DataMessage\<close>.  What \<open>stream_sample\<close> puts on the channel, and the sender
  task writes to the socket, is \<open>rmp_serde::to_vec(&message)\<close>: the MessagePack
  encoding of such a record by itself, not wrapped into an envelope with a type and a
  payload.  The encoding is the library's and is taken to be lossless, so the channel
  carries the records themselves: \<open>DataFrame m\<close> is the encoding of the record
  \<open>m\<close>.  \<open>ErrorFrame code message\<close> is an error message as the API document
  describes it, an envelope of type \<open>error\<close> around a code and a text.
\<close>

record DataMessage =
  msg_offset :: nat
  msg_total :: nat
  msg_chunk :: bytes

datatype frame = DataFrame DataMessage | ErrorFrame nat string

definition CHUNK_SIZE :: nat where
  "CHUNK_SIZE = 256 * 1024"

text \<open>
  The loop of \<open>stream_sample\<close>.  \<open>sent\<close> is the sequence of messages already accepted
  by the channel; \<open>tx_open n\<close> tells whether the receiving half of the channel is still
  there when message number \<open>n\<close> is sent (\<open>tx.send\<close> fails with \<open>ConnectionClosed\<close>
  otherwise).  The delay between two chunks has no effect on the data.
\<close>

function stream_loop :: "(nat \<Rightarrow> bool) \<Rightarrow> bytes \<Rightarrow> nat \<Rightarrow> frame list \<Rightarrow> unit outcome \<times> frame list" where
  "stream_loop tx_open smp offset sent =
     (let total = length smp in
      if offset < total then
        (let stop = min (offset + CHUNK_SIZE) total in
         case slice smp offset stop of
           Ok chunk \<Rightarrow>
             (let message = \<lparr>msg_offset = offset, msg_total = total, msg_chunk = chunk\<rparr> in
              if tx_open (length sent)
              then stream_loop tx_open smp stop (sent @ [DataFrame message])
              else (Err ConnectionClosed, sent))
         | Err e \<Rightarrow> (Err e, sent)
         | Panicked p \<Rightarrow> (Panicked p, sent))
      else (Ok (), sent))"
  by pat_completeness auto
termination
  by (relation "measure (\<lambda>(tx_open, smp, offset, sent). length smp - offset)")
     (auto simp: CHUNK_SIZE_def min_def)

declare stream_loop.simps [simp del]

definition stream_sample :: "(nat \<Rightarrow> bool) \<Rightarrow> frame list \<Rightarrow> bytes \<Rightarrow> unit outcome \<times> frame list" where
  "stream_sample tx_open sent smp = stream_loop tx_open smp 0 sent"

section \<open>The session (\<open>src/server/websocket.rs\<close>, \<open>src/server/handlers.rs\<close>)\<close>

text \<open>
  The upload directory as the file manager sees it: a file is absent, present but
  not readable or mappable, or present with its bytes.
\<close>

datatype stored_file = Missing | Unreadable | Stored bytes

record Config =
  max_sample_size :: nat

record AppState =
  config :: Config
  files :: "string \<Rightarrow> stored_file"
  cache :: Cache

definition mmap_file :: "AppState \<Rightarrow> string \<Rightarrow> bytes outcome" where
  "mmap_file st file_id =
     (case files st file_id of
        Missing \<Rightarrow> Err (FileNotFound file_id)
      | Unreadable \<Rightarrow> Err FileAccess
      | Stored d \<Rightarrow> Ok d)"

text \<open>
  Modelled from the spec: the message type enumeration and the envelope of
  \<open>src/protocol/messages.rs\<close>, which are not among the sources.  The match in
  \<open>handle_message\<close> names the variants \<open>SampleRequest\<close> and \<open>Control\<close> and has a
  catch-all arm; the envelope carries a type and a payload (its id and timestamp are
  never read by the server).
\<close>

datatype MessageType = SampleRequest | Control | OtherType

record Message =
  type_field :: MessageType
  payload :: bytes

text \<open>
  What the session code uses and does not define: the two MessagePack decoders
  (\<open>rmp_serde::from_slice\<close>; \<open>None\<close> is a decoding error, and of a decoded
  \<open>SampleRequest\<close> only \<open>sample_size\<close> is read), \<open>handle_control_message\<close> (called with
  the state and the payload, never with the channel), the hash \<open>Cache::make_key\<close>, the
  random generator (\<open>rng n i m\<close> is the \<open>i\<close>-th draw \<open>gen_range(0..=m)\<close> of the \<open>n\<close>-th
  request) and the liveness of the channel.
\<close>

record externals =
  decode_message :: "bytes \<Rightarrow> Message option"
  decode_request :: "bytes \<Rightarrow> nat option"
  handle_control_message :: "AppState \<Rightarrow> bytes \<Rightarrow> unit outcome \<times> AppState"
  make_key :: "string \<Rightarrow> nat \<Rightarrow> key"
  rng :: "nat \<Rightarrow> nat \<Rightarrow> nat \<Rightarrow> nat"
  tx_open :: "nat \<Rightarrow> bool"

definition perform_sampling ::
  "externals \<Rightarrow> nat \<Rightarrow> AppState \<Rightarrow> string \<Rightarrow> nat \<Rightarrow> bytes outcome \<times> AppState" where
  "perform_sampling ext n st file_id smp_size =
     (let cache_key = make_key ext file_id smp_size in
      case cache_get (cache st) cache_key of
        (Some cached, c) \<Rightarrow> (Ok cached, st\<lparr>cache := c\<rparr>)
      | (None, c) \<Rightarrow>
          (case mmap_file st file_id of
             Ok mmap \<Rightarrow>
               (case sample mmap smp_size (rng ext n) of
                  Ok result \<Rightarrow>
                    (Ok (data result), st\<lparr>cache := cache_put c cache_key (data result)\<rparr>)
                | Err e \<Rightarrow> (Err e, st\<lparr>cache := c\<rparr>)
                | Panicked p \<Rightarrow> (Panicked p, st\<lparr>cache := c\<rparr>))
           | Err e \<Rightarrow> (Err e, st\<lparr>cache := c\<rparr>)
           | Panicked p \<Rightarrow> (Panicked p, st\<lparr>cache := c\<rparr>)))"

definition handle_message ::
  "externals \<Rightarrow> nat \<Rightarrow> AppState \<Rightarrow> string \<Rightarrow> bytes \<Rightarrow> frame list
     \<Rightarrow> unit outcome \<times> AppState \<times> frame list" where
  "handle_message ext n st file_id d sent =
     (case decode_message ext d of
        None \<Rightarrow> (Err InvalidMessage, st, sent)
      | Some message \<Rightarrow>
          (case type_field message of
             SampleRequest \<Rightarrow>
               (case decode_request ext (payload message) of
                  None \<Rightarrow> (Err InvalidMessage, st, sent)
                | Some smp_size \<Rightarrow>
                    (case perform_sampling ext n st file_id smp_size of
                       (Ok smp, st') \<Rightarrow>
                         (case stream_sample (tx_open ext) sent smp of
                            (r, sent') \<Rightarrow> (r, st', sent'))
                     | (Err e, st') \<Rightarrow> (Err e, st', sent)
                     | (Panicked p, st') \<Rightarrow> (Panicked p, st', sent)))
           | Control \<Rightarrow>
               (case handle_control_message ext st (payload message) of
                  (r, st') \<Rightarrow> (r, st', sent))
           | OtherType \<Rightarrow> (Err InvalidMessage, st, sent)))"

text \<open>
  The receive task of \<open>handle_socket\<close> over the messages that arrive on the socket.
  It ends when the stream of messages ends, on a close message, on a socket error and
  on the first message whose handling fails (\<open>break\<close> after logging); when it ends the
  session is over.  Whatever was put on the channel is what the send task writes to
  the socket.
\<close>

datatype ws_event = Binary bytes | Close | SocketError | OtherEvent

datatype session_end = EndOfStream | PeerClose | SocketFailed | HandlerFailed "unit outcome"

fun recv_task ::
  "externals \<Rightarrow> AppState \<Rightarrow> string \<Rightarrow> nat \<Rightarrow> ws_event list \<Rightarrow> frame list
     \<Rightarrow> session_end \<times> AppState \<times> frame list" where
  "recv_task ext st file_id n [] sent = (EndOfStream, st, sent)"
| "recv_task ext st file_id n (Binary d # msgs) sent =
     (case handle_message ext n st file_id d sent of
        (Ok u, st', sent') \<Rightarrow> recv_task ext st' file_id (Suc n) msgs sent'
      | (Err e, st', sent') \<Rightarrow> (HandlerFailed (Err e), st', sent')
      | (Panicked p, st', sent') \<Rightarrow> (HandlerFailed (Panicked p), st', sent'))"
| "recv_task ext st file_id n (Close # msgs) sent = (PeerClose, st, sent)"
| "recv_task ext st file_id n (SocketError # msgs) sent = (SocketFailed, st, sent)"
| "recv_task ext st file_id n (OtherEvent # msgs) sent = recv_task ext st file_id n msgs sent"

definition handle_socket ::
  "externals \<Rightarrow> AppState \<Rightarrow> string \<Rightarrow> ws_event list \<Rightarrow> session_end \<times> AppState \<times> frame list" where
  "handle_socket ext st file_id msgs = recv_task ext st file_id 0 msgs []"

text \<open>
  The synchronous handler \<open>sample_file\<close>.  The response carries the Base64 text of
  the data and its size; the model returns the data.
\<close>

definition sample_file ::
  "externals \<Rightarrow> AppState \<Rightarrow> string \<Rightarrow> nat \<Rightarrow> bytes outcome \<times> AppState" where
  "sample_file ext st file_id smp_size =
     (if smp_size > max_sample_size (config st) then (Err (InvalidSampleSize smp_size), st)
      else
        let cache_key = make_key ext file_id smp_size in
        case cache_get (cache st) cache_key of
          (Some cached, c) \<Rightarrow> (Ok cached, st\<lparr>cache := c\<rparr>)
        | (None, c) \<Rightarrow>
            (case mmap_file st file_id of
               Ok mmap \<Rightarrow>
                 (case sample mmap smp_size (rng ext 0) of
                    Ok result \<Rightarrow>
                      (Ok (data result), st\<lparr>cache := cache_put c cache_key (data result)\<rparr>)
                  | Err e \<Rightarrow> (Err e, st\<lparr>cache := c\<rparr>)
                  | Panicked p \<Rightarrow> (Panicked p, st\<lparr>cache := c\<rparr>))
             | Err e \<Rightarrow> (Err e, st\<lparr>cache := c\<rparr>)
             | Panicked p \<Rightarrow> (Panicked p, st\<lparr>cache := c\<rparr>)))"

section \<open>The client-side data manager (\<open>DataManager\<close>, \<open>frontend/src/main.js\<close>)\<close>

text \<open>
  The fields of the class that its methods read.  \<open>onDataCallback\<close> records whether a
  callback is registered; \<open>delivered\<close> is the sequence of buffers the callback has
  been called with.  Sizes and offsets are non-negative integers decoded from the
  wire.
\<close>

datatype js_error = BufferNotInitialized | RangeError

record DataManager =
  buffer :: "bytes option"
  totalSize :: nat
  receivedSize :: nat
  onDataCallback :: bool
  delivered :: "bytes list"

definition new_DataManager :: DataManager where
  "new_DataManager =
     \<lparr>buffer = None, totalSize = 0, receivedSize = 0, onDataCallback = False, delivered = []\<rparr>"

definition onData :: "DataManager \<Rightarrow> DataManager" where
  "onData dm = dm\<lparr>onDataCallback := True\<rparr>"

definition initialize :: "DataManager \<Rightarrow> nat \<Rightarrow> DataManager" where
  "initialize dm total_sz =
     dm\<lparr>totalSize := total_sz, receivedSize := 0, buffer := Some (replicate total_sz 0)\<rparr>"

definition clear :: "DataManager \<Rightarrow> DataManager" where
  "clear dm = dm\<lparr>buffer := None, totalSize := 0, receivedSize := 0\<rparr>"

text \<open>
  \<open>this.buffer.set(chunk, offset)\<close> throws a \<open>RangeError\<close> when the chunk does not fit
  into the buffer at that offset, and writes nothing then.
\<close>

definition buffer_set :: "bytes \<Rightarrow> bytes \<Rightarrow> nat \<Rightarrow> js_error + bytes" where
  "buffer_set buf chunk offset =
     (if offset + length chunk > length buf then Inl RangeError
      else Inr (take offset buf @ chunk @ drop (offset + length chunk) buf))"

definition addChunk :: "DataManager \<Rightarrow> nat \<Rightarrow> bytes \<Rightarrow> js_error + (bool \<times> DataManager)" where
  "addChunk dm offset chunk =
     (case buffer dm of
        None \<Rightarrow> Inl BufferNotInitialized
      | Some buf \<Rightarrow>
          (case buffer_set buf chunk offset of
             Inl e \<Rightarrow> Inl e
           | Inr buf' \<Rightarrow>
               (let dm = dm\<lparr>buffer := Some buf', receivedSize := receivedSize dm + length chunk\<rparr> in
                if receivedSize dm \<ge> totalSize dm then
                  Inr (True, if onDataCallback dm then dm\<lparr>delivered := delivered dm @ [buf']\<rparr>
                             else dm)
                else Inr (False, dm))))"

text \<open>A sequence of \<open>addChunk\<close> calls, stopping at the first one that throws.\<close>

fun addChunks :: "DataManager \<Rightarrow> (nat \<times> bytes) list \<Rightarrow> js_error + DataManager" where
  "addChunks dm [] = Inr dm"
| "addChunks dm ((offset, chunk) # rest) =
     (case addChunk dm offset chunk of
        Inl e \<Rightarrow> Inl e
      | Inr (complete, dm') \<Rightarrow> addChunks dm' rest)"

text \<open>
  The handler that \<open>main.js\<close> registers for data payloads: the first payload after a
  \<open>clear\<close> allocates the buffer from its \<open>total\<close>, then every payload is added at its
  offset.
\<close>

definition on_data :: "DataManager \<Rightarrow> DataMessage \<Rightarrow> js_error + (bool \<times> DataManager)" where
  "on_data dm p =
     (let dm = (if buffer dm = None then initialize dm (msg_total p) else dm)
      in addChunk dm (msg_offset p) (msg_chunk p))"

section \<open>The client-side socket (\<open>WebSocketClient.js\<close>)\<close>

text \<open>
  What \<open>decode\<close> gives \<open>handleMessage\<close> for a binary message, as far as the method
  looks at it: an envelope of type \<open>data\<close> whose payload decodes to a data message,
  an envelope of type \<open>error\<close> with the code and the text of its payload, an envelope of
  another type, or a value without a property \<open>type\<close>.
\<close>

datatype wire_message =
    DataEnvelope DataMessage
  | ErrorEnvelope nat string
  | OtherEnvelope string
  | NoEnvelope


text \<open>
  \<open>WebSocketClient.handleMessage\<close> with the handlers that \<open>main.js\<close> registers, which
  is the one for the type \<open>data\<close>: a message of type \<open>error\<close> makes it throw, a message
  of type \<open>data\<close> goes to the data handler, and a message of another type or of no
  type has no handler and is dropped with a warning.
\<close>

datatype client_error = DataError js_error | ServerError nat string

fun handleMessage :: "DataManager \<Rightarrow> wire_message \<Rightarrow> client_error + DataManager" where
  "handleMessage dm (ErrorEnvelope code msg) = Inl (ServerError code msg)"
| "handleMessage dm (DataEnvelope p) =
     (case on_data dm p of
        Inl e \<Rightarrow> Inl (DataError e)
      | Inr (complete, dm') \<Rightarrow> Inr dm')"
| "handleMessage dm (OtherEnvelope t) = Inr dm"
| "handleMessage dm NoEnvelope = Inr dm"

text \<open>
  The client over a sequence of decoded messages, up to the first one that makes it
  throw, and over the frames of the server.
\<close>

fun client_handle :: "DataManager \<Rightarrow> wire_message list \<Rightarrow> client_error + DataManager" where
  "client_handle dm [] = Inr dm"
| "client_handle dm (msg # rest) =
     (case handleMessage dm msg of
        Inl e \<Rightarrow> Inl e
      | Inr dm' \<Rightarrow> client_handle dm' rest)"


section \<open>Chunk sequences\<close>

text \<open>
  A sequence of data messages cuts the byte sequence \<open>smp\<close> from position \<open>a\<close> on:
  the first message starts at \<open>a\<close>, every message carries the total length and a
  non-empty chunk of at most \<open>CHUNK_SIZE\<close> bytes, which are the bytes of \<open>smp\<close> at its
  offset, every message starts where the one before it ends, and the last one ends at
  the end of \<open>smp\<close>.
\<close>

fun chunks_from :: "bytes \<Rightarrow> nat \<Rightarrow> DataMessage list \<Rightarrow> bool" where
  "chunks_from smp a [] = (a = length smp)"
| "chunks_from smp a (m # ms) =
     (msg_offset m = a \<and> msg_total m = length smp \<and> msg_chunk m \<noteq> []
      \<and> length (msg_chunk m) \<le> CHUNK_SIZE
      \<and> msg_chunk m = take (length (msg_chunk m)) (drop a smp)
      \<and> chunks_from smp (a + length (msg_chunk m)) ms)"

text \<open>A sequence of frames that holds data frames only.\<close>

definition only_data :: "frame list \<Rightarrow> bool" where
  "only_data fs = list_all (\<lambda>f. case f of DataFrame m \<Rightarrow> True | ErrorFrame c t \<Rightarrow> False) fs"

section \<open>Properties of the sampler\<close>

lemma isqrt_sq_le: "isqrt n * isqrt n \<le> n"
  by (induction n) (auto simp: Let_def)

lemma isqrt_less: "n < Suc (isqrt n) * Suc (isqrt n)"
  by (induction n) (auto simp: Let_def)

lemma isqrt_pos: "0 < n \<Longrightarrow> 0 < isqrt n"
  using isqrt_less [of n] by (cases "isqrt n") auto

lemma isqrt_unique:
  assumes "k * k \<le> n" and "n < Suc k * Suc k"
  shows "isqrt n = k"
proof (rule antisym)
  show "isqrt n \<le> k"
  proof (rule ccontr)
    assume "\<not> isqrt n \<le> k"
    then have "Suc k \<le> isqrt n" by linarith
    then have "Suc k * Suc k \<le> isqrt n * isqrt n" by (intro mult_le_mono)
    with isqrt_sq_le [of n] assms(2) show False by simp
  qed
  show "k \<le> isqrt n"
  proof (rule ccontr)
    assume "\<not> k \<le> isqrt n"
    then have "Suc (isqrt n) \<le> k" by linarith
    then have "Suc (isqrt n) * Suc (isqrt n) \<le> k * k" by (intro mult_le_mono)
    with isqrt_less [of n] assms(1) show False by simp
  qed
qed


lemma adjust_prefix:
  "k \<le> length ws \<Longrightarrow>
   fold (\<lambda>i xs. xs[i := xs ! i + i * w]) [0..<k] ws =
     map (\<lambda>i. ws ! i + i * w) [0..<k] @ drop k ws"
proof (induction k)
  case 0
  then show ?case by simp
next
  case (Suc k)
  then have k: "k < length ws" by simp
  have "fold (\<lambda>i xs. xs[i := xs ! i + i * w]) [0..<Suc k] ws =
        (map (\<lambda>i. ws ! i + i * w) [0..<k] @ drop k ws)[k := (map (\<lambda>i. ws ! i + i * w) [0..<k] @ drop k ws) ! k + k * w]"
    using Suc by simp
  also have "\<dots> = map (\<lambda>i. ws ! i + i * w) [0..<k] @ (drop k ws)[0 := ws ! k + k * w]"
    using k by (simp add: list_update_append nth_append)
  also have "(drop k ws)[0 := ws ! k + k * w] = (ws ! k + k * w) # drop (Suc k) ws"
    using k by (simp add: Cons_nth_drop_Suc [symmetric])
  finally show ?case by simp
qed

lemma adjust_eq:
  "length ws = n \<Longrightarrow> adjust n w ws = map (\<lambda>i. ws ! i + i * w) [0..<n]"
  unfolding adjust_def using adjust_prefix [of n ws w] by simp


lemma window_offsets_eq:
  "window_offsets n wc w g =
     map (\<lambda>i. sort (map (\<lambda>i. g i (n - wc * w)) [0..<wc]) ! i + i * w) [0..<wc]"
  by (simp add: window_offsets_def Let_def adjust_eq)

lemma length_window_offsets: "length (window_offsets n wc w g) = wc"
  by (simp add: window_offsets_eq)

lemma nth_window_offsets:
  "i < wc \<Longrightarrow>
   window_offsets n wc w g ! i = sort (map (\<lambda>i. g i (n - wc * w)) [0..<wc]) ! i + i * w"
  by (simp add: window_offsets_eq)

lemma sorted_draw_le:
  assumes "\<forall>i m. g i m \<le> m" and "i < wc"
  shows "sort (map (\<lambda>i. g i m) [0..<wc]) ! i \<le> m"
proof -
  have "sort (map (\<lambda>i. g i m) [0..<wc]) ! i \<in> set (sort (map (\<lambda>i. g i m) [0..<wc]))"
    using assms(2) by (intro nth_mem) simp
  then show ?thesis using assms(1) by auto
qed

lemma window_offsets_max:
  assumes "\<forall>i m. g i m \<le> m" and "i < wc"
  shows "window_offsets n wc w g ! i \<le> (n - wc * w) + (wc - 1) * w"
proof -
  have "i * w \<le> (wc - 1) * w" using assms(2) by (intro mult_le_mono1) simp
  with sorted_draw_le [OF assms, of "n - wc * w"]
  have "sort (map (\<lambda>i. g i (n - wc * w)) [0..<wc]) ! i + i * w \<le> (n - wc * w) + (wc - 1) * w"
    by (rule add_mono)
  then show ?thesis using assms(2) by (simp only: nth_window_offsets)
qed

lemma max_offset_fits:
  assumes "wc * w \<le> n" and "0 < wc"
  shows "(n - wc * w) + (wc - 1) * w + w = (n::nat)"
proof -
  have "(wc - 1) * w + w = wc * w" using assms(2) by (cases wc) simp_all
  with assms(1) show ?thesis by simp
qed

lemma window_offsets_in_range:
  assumes "\<forall>i m. g i m \<le> m" and "wc * w \<le> n" and "i < wc"
  shows "window_offsets n wc w g ! i + w \<le> n"
  using window_offsets_max [OF assms(1,3), of n w] max_offset_fits [OF assms(2), of] assms(3)
  by simp

lemma window_offsets_spread:
  assumes "i < j" and "j < wc"
  shows "window_offsets n wc w g ! i + w \<le> window_offsets n wc w g ! j"
proof -
  let ?s = "sort (map (\<lambda>i. g i (n - wc * w)) [0..<wc])"
  have "?s ! i \<le> ?s ! j"
    using assms by (intro sorted_nth_mono) simp_all
  moreover have "i * w + w \<le> j * w"
  proof -
    have "Suc i * w \<le> j * w" using assms(1) by (intro mult_le_mono1) simp
    then show ?thesis by simp
  qed
  ultimately show ?thesis using assms by (simp add: nth_window_offsets)
qed

lemma extract_windows_ok:
  "\<forall>off\<in>set offs. off + w \<le> length d \<Longrightarrow>
   extract_windows d w offs = Ok (map (\<lambda>off. take w (drop off d)) offs)"
  by (induction offs) (simp_all add: slice_def min_def)

lemma length_concat_windows:
  "\<forall>off\<in>set offs. off + w \<le> length d \<Longrightarrow>
   length (concat (map (\<lambda>off. take w (drop off d)) offs)) = length offs * w"
  by (induction offs) (auto simp: min_def)


lemma isqrt_le_self: "isqrt n \<le> n"
  by (induction n) (auto simp: Let_def)

lemma windows_count_pos: "0 < n \<Longrightarrow> 0 < n div isqrt n"
  using isqrt_le_self [of n] isqrt_pos [of n] by (simp add: div_greater_zero_iff)

lemma windows_fit: "n div isqrt n * isqrt n \<le> n"
  by simp

lemma sample_uniform:
  assumes "0 < target_sz" and "target_sz < length d" and "\<forall>i m. gen_range i m \<le> m"
  shows "sample d target_sz gen_range =
           Ok \<lparr>data = concat (map (\<lambda>off. take (isqrt target_sz) (drop off d))
                     (window_offsets (length d) (target_sz div isqrt target_sz)
                        (isqrt target_sz) gen_range)),
               metadata = \<lparr>original_size = length d,
                           sample_size = target_sz div isqrt target_sz * isqrt target_sz,
                           method_name = ''uniform''\<rparr>\<rparr>"
proof -
  let ?ws = "isqrt target_sz"
  let ?wc = "target_sz div ?ws"
  let ?offs = "window_offsets (length d) ?wc ?ws gen_range"
  have fit: "?wc * ?ws \<le> length d" using windows_fit [of target_sz] assms(2) by linarith
  have inr: "\<forall>off\<in>set ?offs. off + ?ws \<le> length d"
  proof
    fix off assume "off \<in> set ?offs"
    then obtain i where "i < ?wc" and "off = ?offs ! i"
      by (auto simp: in_set_conv_nth length_window_offsets)
    then show "off + ?ws \<le> length d"
      using window_offsets_in_range [OF assms(3) fit] by simp
  qed
  have "length (concat (map (\<lambda>off. take ?ws (drop off d)) ?offs)) = ?wc * ?ws"
    using length_concat_windows [OF inr] by (simp add: length_window_offsets)
  moreover have "?ws \<noteq> 0" using isqrt_pos [OF assms(1)] by simp
  moreover have "\<not> length d \<le> target_sz" using assms(2) by simp
  ultimately show ?thesis
    unfolding sample_def Let_def using extract_windows_ok [OF inr] by simp
qed

text \<open>
  C1.  For a file longer than a positive target size and a generator that keeps its
  contract, the sorted and shifted offsets are \<open>windows_count\<close> many, each is at most
  \<open>max_offset + (windows_count - 1) * window_size\<close>, which is at most
  \<open>data_size - window_size\<close>; so every window \<open>[offset, offset + window_size)\<close> lies
  within \<open>[0, data_size)\<close>, the clamp to \<open>data_size\<close> never takes effect, no slice
  is out of range, and \<open>sample\<close> returns \<open>Ok\<close>.
\<close>

theorem sample_windows_within_data:
  fixes d :: bytes and target_sz :: nat and gen_range :: "nat \<Rightarrow> nat \<Rightarrow> nat"
  defines "window_size \<equiv> isqrt target_sz"
  defines "windows_count \<equiv> target_sz div window_size"
  defines "max_offset \<equiv> length d - windows_count * window_size"
  defines "windows \<equiv> window_offsets (length d) windows_count window_size gen_range"
  assumes "0 < target_sz" and "target_sz < length d" and "\<forall>i m. gen_range i m \<le> m"
  shows "length windows = windows_count
       \<and> (\<forall>i<windows_count.
            windows ! i \<le> max_offset + (windows_count - 1) * window_size
          \<and> windows ! i + window_size \<le> length d
          \<and> slice d (windows ! i) (min (windows ! i + window_size) (length d)) =
              Ok (take window_size (drop (windows ! i) d)))
       \<and> max_offset + (windows_count - 1) * window_size \<le> length d - window_size
       \<and> (\<exists>r. sample d target_sz gen_range = Ok r)"
proof -
  have fit: "windows_count * window_size \<le> length d"
    unfolding windows_count_def window_size_def
    using windows_fit [of target_sz] assms(6) by linarith
  have pos: "0 < windows_count"
    unfolding windows_count_def window_size_def using assms(5) by (rule windows_count_pos)
  have top: "max_offset + (windows_count - 1) * window_size + window_size = length d"
    unfolding max_offset_def using fit pos by (rule max_offset_fits)
  have each: "windows ! i \<le> max_offset + (windows_count - 1) * window_size
          \<and> windows ! i + window_size \<le> length d
          \<and> slice d (windows ! i) (min (windows ! i + window_size) (length d)) =
              Ok (take window_size (drop (windows ! i) d))" if "i < windows_count" for i
  proof -
    have a: "windows ! i \<le> max_offset + (windows_count - 1) * window_size"
      unfolding windows_def max_offset_def using assms(7) that by (rule window_offsets_max)
    with top have b: "windows ! i + window_size \<le> length d" by linarith
    then show ?thesis using a by (simp add: slice_def min_def)
  qed
  have "\<exists>r. sample d target_sz gen_range = Ok r"
    using sample_uniform [OF assms(5-7)] by simp
  moreover have "length windows = windows_count"
    unfolding windows_def by (rule length_window_offsets)
  moreover have "max_offset + (windows_count - 1) * window_size \<le> length d - window_size"
    using top by linarith
  ultimately show ?thesis using each by blast
qed

theorem sample_windows_within_data_witness:
  "length (window_offsets 10 (4 div isqrt 4) (isqrt 4) (\<lambda>i m. m)) = 4 div isqrt 4
   \<and> window_offsets 10 (4 div isqrt 4) (isqrt 4) (\<lambda>i m. m) ! 1 + isqrt 4 \<le> 10
   \<and> (\<exists>r. sample (replicate 10 0) 4 (\<lambda>i m. m) = Ok r)"
proof -
  have s: "isqrt 4 = 2" by (rule isqrt_unique) simp_all
  show ?thesis
    using sample_windows_within_data [of 4 "replicate 10 0" "\<lambda>i m. m"]
    by (simp add: s)
qed



text \<open>
  C4.  The windows do not overlap: for \<open>i < j\<close> the window at the \<open>i\<close>-th final
  offset ends before the window at the \<open>j\<close>-th begins, so the two half-open byte
  ranges are disjoint.  This holds for every file size, target size and sequence of
  draws.
\<close>

theorem windows_disjoint:
  fixes data_size target_sz :: nat and gen_range :: "nat \<Rightarrow> nat \<Rightarrow> nat"
  defines "window_size \<equiv> isqrt target_sz"
  defines "windows_count \<equiv> target_sz div window_size"
  defines "windows \<equiv> window_offsets data_size windows_count window_size gen_range"
  assumes "i < j" and "j < windows_count"
  shows "windows ! i + window_size \<le> windows ! j
       \<and> {windows ! i ..< windows ! i + window_size}
           \<inter> {windows ! j ..< windows ! j + window_size} = {}"
proof -
  have "windows ! i + window_size \<le> windows ! j"
    unfolding windows_def using assms(4,5) by (rule window_offsets_spread)
  then show ?thesis by auto
qed

theorem windows_disjoint_witness:
  "window_offsets 100 (9 div isqrt 9) (isqrt 9) (\<lambda>i m. m) ! 0 + isqrt 9
     \<le> window_offsets 100 (9 div isqrt 9) (isqrt 9) (\<lambda>i m. m) ! 2"
proof -
  have s: "isqrt 9 = 3" by (rule isqrt_unique) simp_all
  show ?thesis
    using windows_disjoint [of 0 2 9 100 "\<lambda>i m. m"] by (simp add: s)
qed

text \<open>
  C5.  A file that is not longer than the target size is returned as it is, with
  method \<open>full\<close> and its own length as \<open>sample_size\<close>.
\<close>

theorem sample_full:
  assumes "length d \<le> target_sz"
  shows "sample d target_sz gen_range =
           Ok \<lparr>data = d,
               metadata = \<lparr>original_size = length d, sample_size = length d,
                           method_name = ''full''\<rparr>\<rparr>"
  using assms by (simp add: sample_def Let_def)

theorem sample_full_witness:
  "sample [1, 2, 3] 3 (\<lambda>i m. m) =
     Ok \<lparr>data = [1, 2, 3],
         metadata = \<lparr>original_size = 3, sample_size = 3, method_name = ''full''\<rparr>\<rparr>"
  using sample_full [of "[1, 2, 3]" 3 "\<lambda>i m. m"] by simp

text \<open>
  C2.  A target size of 0 against a file that is not empty is not rejected with
  \<open>InvalidSampleSize\<close>: \<open>window_size\<close> is 0 and the division
  \<open>target_size / window_size\<close> panics.  The synchronous handler only checks the upper
  bound of the sample size, so the request reaches that division there as well.
\<close>

theorem sample_zero_target_divides_by_zero:
  "sample (b # bs) 0 gen_range = Panicked DivideByZero
   \<and> fst (sample_file ext
            \<lparr>config = cfg, files = (\<lambda>file_id. Stored (b # bs)), cache = cache_new cap\<rparr>
            file_id 0) = Panicked DivideByZero
   \<and> fst (perform_sampling ext n
            \<lparr>config = cfg, files = (\<lambda>file_id. Stored (b # bs)), cache = cache_new cap\<rparr>
            file_id 0) = Panicked DivideByZero"
  by (simp add: sample_def sample_file_def perform_sampling_def mmap_file_def
        cache_get_def cache_new_def)

section \<open>Properties of the cache\<close>

lemma sizes_delete:
  "distinct (map fst al) \<Longrightarrow> map_of al k = Some e \<Longrightarrow>
   sizes (AList.delete k al) + entry_size e = sizes al"
proof (induction al)
  case Nil
  then show ?case by simp
next
  case (Cons p al)
  obtain k' e' where p: "p = (k', e')" by (cases p)
  show ?case
  proof (cases "k' = k")
    case True
    with Cons.prems p have "e' = e" and "k \<notin> fst ` set al" by auto
    then show ?thesis using p True by (simp add: AList.delete_id)
  next
    case False
    with Cons p show ?thesis by simp
  qed
qed

lemma update_fresh:
  "k \<notin> fst ` set al \<Longrightarrow> AList.update k v al = al @ [(k, v)]"
  by (induction al) auto

lemma delete_absent: "map_of al k = None \<Longrightarrow> AList.delete k al = al"
  by (simp add: AList.delete_id map_of_eq_None_iff)

lemma set_delete_subset: "set (AList.delete k al) \<subseteq> set al"
  by (auto simp: AList.delete_eq)

lemma keys_delete: "fst ` set (AList.delete k al) = fst ` set al - {k}"
  by (auto simp: AList.delete_eq image_iff)

lemma list_all_delete:
  "list_all P al \<Longrightarrow> list_all P (AList.delete k al)"
  by (simp add: AList.delete_eq list_all_iff)

lemma store_ok_remove_existing:
  assumes "store_ok s"
  shows "store_ok (remove_existing k s)"
    and "k \<notin> set (order (remove_existing k s))"
    and "total_size (remove_existing k s) \<le> total_size s"
proof -
  show "store_ok (remove_existing k s)"
  proof (cases "map_of (store_map s) k")
    case None
    then show ?thesis using assms by (simp add: remove_existing_def)
  next
    case (Some e)
    have "sizes (AList.delete k (store_map s)) + entry_size e = sizes (store_map s)"
      using assms Some by (intro sizes_delete) (simp_all add: store_ok_def)
    then have "sizes (AList.delete k (store_map s)) = total_size s - entry_size e"
      using assms by (simp add: store_ok_def entries_size_def)
    then show ?thesis
      using assms Some
      by (auto simp: remove_existing_def store_ok_def entries_size_def distinct_delete
          keys_delete list_all_delete)
  qed
  show "k \<notin> set (order (remove_existing k s))"
  proof (cases "map_of (store_map s) k")
    case None
    then have "k \<notin> fst ` set (store_map s)" by (simp add: map_of_eq_None_iff)
    then show ?thesis using assms None by (simp add: remove_existing_def store_ok_def)
  next
    case (Some e)
    then show ?thesis by (simp add: remove_existing_def)
  qed
  show "total_size (remove_existing k s) \<le> total_size s"
    by (simp add: remove_existing_def split: option.splits)
qed

lemma store_ok_evict_front:
  assumes "store_ok s"
  shows "store_ok (evict_front s)"
proof (cases "order s")
  case Nil
  then show ?thesis using assms by (simp add: evict_front_def)
next
  case (Cons k rest)
  then have "k \<in> fst ` set (store_map s)" using assms by (auto simp: store_ok_def)
  then obtain e where e: "map_of (store_map s) k = Some e"
    by (cases "map_of (store_map s) k") (auto simp: map_of_eq_None_iff)
  have "sizes (AList.delete k (store_map s)) + entry_size e = sizes (store_map s)"
    using assms e by (intro sizes_delete) (simp_all add: store_ok_def)
  then have "sizes (AList.delete k (store_map s)) = total_size s - entry_size e"
    using assms by (simp add: store_ok_def entries_size_def)
  moreover have "set rest = fst ` set (store_map s) - {k}"
    using assms Cons by (auto simp: store_ok_def)
  ultimately show ?thesis
    using assms Cons e
    by (auto simp: evict_front_def store_ok_def entries_size_def distinct_delete
        keys_delete list_all_delete)
qed

lemma evict_front_total: "total_size (evict_front s) \<le> total_size s"
  by (simp add: evict_front_def split: list.splits option.splits)

lemma evict_front_order: "order (evict_front s) = tl (order s)"
  by (simp add: evict_front_def split: list.splits option.splits)

lemma evict_continue:
  "total_size s + sz > cap \<Longrightarrow> order s \<noteq> [] \<Longrightarrow>
   evict cap sz s = evict cap sz (evict_front s)"
  by (subst evict.simps) simp

lemma evict_stop:
  "\<not> (total_size s + sz > cap \<and> order s \<noteq> []) \<Longrightarrow> evict cap sz s = s"
  by (subst evict.simps) auto

lemma evict_props:
  "store_ok s \<Longrightarrow>
   store_ok (evict cap sz s)
   \<and> total_size (evict cap sz s) \<le> total_size s
   \<and> set (order (evict cap sz s)) \<subseteq> set (order s)"
proof (induction cap sz s rule: evict.induct)
  case (1 cap sz s)
  show ?case
  proof (cases "total_size s + sz > cap \<and> order s \<noteq> []")
    case True
    then have eq: "evict cap sz s = evict cap sz (evict_front s)"
      by (simp add: evict_continue)
    have ih: "store_ok (evict cap sz (evict_front s))
        \<and> total_size (evict cap sz (evict_front s)) \<le> total_size (evict_front s)
        \<and> set (order (evict cap sz (evict_front s))) \<subseteq> set (order (evict_front s))"
      using "1.IH" True store_ok_evict_front [OF "1.prems"] by simp
    have "set (order (evict_front s)) \<subseteq> set (order s)"
      using True by (auto simp: evict_front_order dest: list.set_sel(2))
    with ih evict_front_total [of s] show ?thesis unfolding eq by auto
  next
    case False
    then have "evict cap sz s = s" by (rule evict_stop)
    with "1.prems" show ?thesis by simp
  qed
qed

lemma cache_inv_put:
  assumes "cache_inv c"
  shows "cache_inv (cache_put c k d)"
proof -
  let ?s1 = "remove_existing k (store c)"
  let ?s2 = "evict (capacity c) (length d) ?s1"
  have ok1: "store_ok ?s1" and nk1: "k \<notin> set (order ?s1)"
    and t1: "total_size ?s1 \<le> total_size (store c)"
    using assms store_ok_remove_existing [of "store c" k] by (simp_all add: cache_inv_def)
  have p2: "store_ok ?s2" "total_size ?s2 \<le> total_size ?s1" "set (order ?s2) \<subseteq> set (order ?s1)"
    using evict_props [OF ok1, of "capacity c" "length d"] by simp_all
  have nk2: "k \<notin> fst ` set (store_map ?s2)"
    using p2 nk1 by (auto simp: store_ok_def)
  show ?thesis
  proof (cases "total_size ?s2 + length d \<le> capacity c")
    case True
    then show ?thesis
      using p2 nk2 assms
      by (auto simp: cache_put_def Let_def cache_inv_def store_ok_def entries_size_def
          update_fresh)
  next
    case False
    then show ?thesis
      using p2 t1 assms by (simp add: cache_put_def Let_def cache_inv_def)
  qed
qed

lemma cache_inv_get:
  assumes "cache_inv c"
  shows "cache_inv (snd (cache_get c k))"
proof (cases "map_of (store_map (store c)) k")
  case None
  then show ?thesis using assms by (simp add: cache_get_def)
next
  case (Some e)
  then have "k \<in> fst ` set (store_map (store c))"
    by (metis map_of_eq_None_iff option.distinct(1))
  then have "k \<in> set (order (store c))" using assms by (simp add: cache_inv_def store_ok_def)
  then have "set (filter (\<lambda>k'. k' \<noteq> k) (order (store c)) @ [k]) = set (order (store c))"
    by auto
  then show ?thesis
    using assms Some
    by (simp add: cache_get_def cache_inv_def store_ok_def entries_size_def)
qed

lemma cache_inv_clear: "cache_inv (cache_clear c)"
  by (simp add: cache_clear_def cache_inv_def store_ok_def entries_size_def)

lemma cache_inv_new: "cache_inv (cache_new cap)"
  by (simp add: cache_new_def cache_inv_def store_ok_def entries_size_def)

lemma cache_inv_op: "cache_inv c \<Longrightarrow> cache_inv (apply_cache_op c x)"
  by (cases x) (simp_all add: cache_inv_get cache_inv_put cache_inv_clear)

lemma cache_inv_run: "cache_inv c \<Longrightarrow> cache_inv (run_cache c ops)"
  unfolding run_cache_def by (induction ops arbitrary: c) (simp_all add: cache_inv_op)


lemma capacity_op: "capacity (apply_cache_op c x) = capacity c"
  by (cases x) (simp_all add: cache_get_def cache_put_def cache_clear_def Let_def
      split: option.splits)

lemma capacity_run: "capacity (run_cache c ops) = capacity c"
  unfolding run_cache_def by (induction ops arbitrary: c) (simp_all add: capacity_op)

lemma evict_oversize: "cap < sz \<Longrightarrow> order (evict cap sz s) = []"
proof (induction cap sz s rule: evict.induct)
  case (1 cap sz s)
  show ?case
  proof (cases "order s = []")
    case True
    then show ?thesis by (simp add: evict_stop)
  next
    case False
    with "1.prems" have c: "total_size s + sz > cap \<and> order s \<noteq> []" by simp
    then have "evict cap sz s = evict cap sz (evict_front s)" by (simp add: evict_continue)
    with "1.IH" [OF c "1.prems"] show ?thesis by simp
  qed
qed

lemma store_ok_empty_order:
  assumes "store_ok s" and "order s = []"
  shows "s = \<lparr>store_map = [], order = [], total_size = 0\<rparr>"
proof -
  have "store_map s = []" using assms by (simp add: store_ok_def)
  moreover from this have "total_size s = 0" using assms by (simp add: store_ok_def entries_size_def)
  ultimately show ?thesis using assms(2) by simp
qed

lemma put_oversize:
  assumes "cache_inv c" and "capacity c < length d"
  shows "cache_put c k d = cache_clear c"
proof -
  let ?s1 = "remove_existing k (store c)"
  let ?s2 = "evict (capacity c) (length d) ?s1"
  have "store_ok ?s1"
    using assms(1) store_ok_remove_existing(1) [of "store c" k] by (simp add: cache_inv_def)
  then have "store_ok ?s2" using evict_props by blast
  moreover have "order ?s2 = []" using assms(2) by (rule evict_oversize)
  ultimately have "?s2 = \<lparr>store_map = [], order = [], total_size = 0\<rparr>"
    by (rule store_ok_empty_order)
  then show ?thesis using assms(2) by (simp add: cache_put_def cache_clear_def Let_def)
qed

text \<open>
  C6.  After every sequence of \<open>get\<close>, \<open>put\<close> and \<open>clear\<close> calls on a new cache the
  capacity is the configured one, \<open>total_size\<close> is the sum of the sizes of the stored
  entries and is at most the capacity (as \<open>stats\<close> reports it).  A \<open>put\<close> of a byte
  sequence longer than the whole capacity stores nothing, and the eviction loop
  before it removes every stored entry: the cache is as after \<open>clear\<close>, \<open>stats\<close> reports
  0 entries, and a \<open>get\<close> of that key finds nothing.
\<close>

theorem cache_capacity_invariant:
  fixes cap :: nat and ops :: "cache_op list" and k :: key and d :: bytes
  defines "c \<equiv> run_cache (cache_new cap) ops"
  shows "capacity c = cap
       \<and> total_size (store c) = entries_size (store c)
       \<and> total_size (store c) \<le> capacity c
       \<and> stats_total_size (cache_stats c) \<le> stats_capacity (cache_stats c)
       \<and> (capacity c < length d \<longrightarrow>
            cache_put c k d = cache_clear c
          \<and> stats_entries (cache_stats (cache_put c k d)) = 0
          \<and> fst (cache_get (cache_put c k d) k) = None)"
proof -
  have inv: "cache_inv c" unfolding c_def by (intro cache_inv_run cache_inv_new)
  have cap: "capacity c = cap" unfolding c_def by (simp add: capacity_run cache_new_def)
  have a: "total_size (store c) = entries_size (store c)"
    and b: "total_size (store c) \<le> capacity c"
    using inv by (simp_all add: cache_inv_def store_ok_def)
  have st: "stats_total_size (cache_stats c) \<le> stats_capacity (cache_stats c)"
    using b by (simp add: cache_stats_def)
  have over: "cache_put c k d = cache_clear c
          \<and> stats_entries (cache_stats (cache_put c k d)) = 0
          \<and> fst (cache_get (cache_put c k d) k) = None" if "capacity c < length d"
  proof -
    have e: "cache_put c k d = cache_clear c" using inv that by (rule put_oversize)
    have "stats_entries (cache_stats (cache_clear c)) = 0"
      by (simp add: cache_clear_def cache_stats_def)
    moreover have "fst (cache_get (cache_clear c) k) = None"
      by (simp add: cache_clear_def cache_get_def)
    ultimately show ?thesis unfolding e by simp
  qed
  from cap a b st over show ?thesis by blast
qed

theorem cache_capacity_invariant_witness:
  "cache_put (run_cache (cache_new 1024) [Put 1 (replicate 512 0)]) 2 (replicate 2000 0)
     = cache_clear (run_cache (cache_new 1024) [Put 1 (replicate 512 0)])
   \<and> fst (cache_get
        (cache_put (run_cache (cache_new 1024) [Put 1 (replicate 512 0)]) 2 (replicate 2000 0))
        2) = None"
proof -
  note t = cache_capacity_invariant [of 1024 "[Put 1 (replicate 512 0)]" "replicate 2000 0" 2]
  from t have "capacity (run_cache (cache_new 1024) [Put 1 (replicate 512 0)]) = 1024"
    by blast
  then have "capacity (run_cache (cache_new 1024) [Put 1 (replicate 512 0)])
      < length (replicate 2000 (0::byte))"
    by simp
  with t show ?thesis by blast
qed

text \<open>
  The number of entries that \<open>stats\<close> reports is not unchanged by such a \<open>put\<close>: with a
  capacity of 1024 and one stored entry of 512 bytes, a \<open>put\<close> of 2000 bytes under
  another key takes the number of entries from 1 to 0.
\<close>

theorem oversized_put_changes_entries:
  "stats_entries (cache_stats
      (cache_put (cache_put (cache_new 1024) 1 (replicate 512 0)) 2 (replicate 2000 0)))
   \<noteq> stats_entries (cache_stats (cache_put (cache_new 1024) 1 (replicate 512 0)))"
  by (simp add: cache_stats_def cache_put_def cache_new_def remove_existing_def
      evict.simps evict_front_def Let_def)


lemma evict_front_map:
  "store_map (evict_front s) =
     (case order s of [] \<Rightarrow> store_map s | k # rest \<Rightarrow> AList.delete k (store_map s))"
  by (simp add: evict_front_def delete_absent split: list.splits option.splits)

lemma evict_front_pow_order: "order ((evict_front ^^ n) s) = drop n (order s)"
proof (induction n)
  case 0
  then show ?case by simp
next
  case (Suc n)
  then show ?case by (simp add: evict_front_order drop_Suc tl_drop)
qed

lemma evict_front_pow_map:
  "store_map ((evict_front ^^ n) s) =
     filter (\<lambda>(k', e). k' \<notin> set (take n (order s))) (store_map s)"
proof (induction n arbitrary: s)
  case 0
  then show ?case by simp
next
  case (Suc n)
  have "store_map ((evict_front ^^ Suc n) s) = store_map ((evict_front ^^ n) (evict_front s))"
    by (simp add: funpow_swap1)
  also have "\<dots> = filter (\<lambda>(k', e). k' \<notin> set (take n (tl (order s))))
                    (store_map (evict_front s))"
    by (simp add: Suc.IH evict_front_order)
  also have "\<dots> = filter (\<lambda>(k', e). k' \<notin> set (take (Suc n) (order s))) (store_map s)"
  proof (cases "order s")
    case Nil
    then show ?thesis by (simp add: evict_front_map)
  next
    case (Cons k rest)
    then show ?thesis
      by (auto simp: evict_front_map AList.delete_eq intro!: filter_cong)
  qed
  finally show ?case .
qed

lemma evict_as_funpow:
  "\<exists>n. evict cap sz s = (evict_front ^^ n) s
     \<and> (\<forall>m<n. cap < total_size ((evict_front ^^ m) s) + sz
               \<and> order ((evict_front ^^ m) s) \<noteq> [])
     \<and> (total_size ((evict_front ^^ n) s) + sz \<le> cap \<or> order ((evict_front ^^ n) s) = [])"
proof (induction cap sz s rule: evict.induct)
  case (1 cap sz s)
  show ?case
  proof (cases "total_size s + sz > cap \<and> order s \<noteq> []")
    case True
    from "1.IH" [OF True] obtain n where
      n: "evict cap sz (evict_front s) = (evict_front ^^ n) (evict_front s)"
         "\<forall>m<n. cap < total_size ((evict_front ^^ m) (evict_front s)) + sz
               \<and> order ((evict_front ^^ m) (evict_front s)) \<noteq> []"
         "total_size ((evict_front ^^ n) (evict_front s)) + sz \<le> cap
            \<or> order ((evict_front ^^ n) (evict_front s)) = []"
      by blast
    have sw: "(evict_front ^^ m) (evict_front s) = (evict_front ^^ Suc m) s" for m
      by (simp add: funpow_swap1)
    have "evict cap sz s = (evict_front ^^ Suc n) s"
      using True n(1) by (simp add: evict_continue funpow_swap1)
    moreover have "cap < total_size ((evict_front ^^ m) s) + sz
               \<and> order ((evict_front ^^ m) s) \<noteq> []" if "m < Suc n" for m
    proof (cases m)
      case 0
      then show ?thesis using True by simp
    next
      case (Suc m')
      with that have "m' < n" by simp
      with n(2) show ?thesis unfolding Suc sw [symmetric] by blast
    qed
    moreover have "total_size ((evict_front ^^ Suc n) s) + sz \<le> cap
            \<or> order ((evict_front ^^ Suc n) s) = []"
      using n(3) unfolding sw .
    ultimately show ?thesis by blast
  next
    case False
    then have "evict cap sz s = (evict_front ^^ 0) s" by (simp add: evict_stop)
    moreover have "total_size ((evict_front ^^ 0) s) + sz \<le> cap \<or> order ((evict_front ^^ 0) s) = []"
      using False by auto
    ultimately show ?thesis by blast
  qed
qed


lemma remove_existing_lookup: "map_of (store_map (remove_existing k s)) k = None"
  by (cases "map_of (store_map s) k") (simp_all add: remove_existing_def AList.delete_conv')

lemma remove_existing_frees:
  assumes "store_ok s" and "map_of (store_map s) k = Some e"
  shows "total_size (remove_existing k s) + entry_size e = total_size s"
proof -
  have "sizes (AList.delete k (store_map s)) + entry_size e = sizes (store_map s)"
    using assms by (intro sizes_delete) (simp_all add: store_ok_def)
  moreover have "total_size s = sizes (store_map s)"
    using assms(1) by (simp add: store_ok_def entries_size_def)
  ultimately show ?thesis using assms(2) by (simp add: remove_existing_def)
qed

lemma lru_scenario:
  "order (store (cache_put (cache_put (cache_new 1024) 1 (replicate 512 0)) 2 (replicate 512 0)))
     = [1, 2]
   \<and> order (store (cache_put (cache_put (cache_put (cache_new 1024) 1 (replicate 512 0))
                2 (replicate 512 0)) 3 (replicate 512 0))) = [2, 3]
   \<and> cache_get (cache_put (cache_put (cache_put (cache_new 1024) 1 (replicate 512 0))
                2 (replicate 512 0)) 3 (replicate 512 0)) 1
       = (None, cache_put (cache_put (cache_put (cache_new 1024) 1 (replicate 512 0))
                2 (replicate 512 0)) 3 (replicate 512 0))
   \<and> fst (cache_get (cache_put (cache_put (cache_put (cache_new 1024) 1 (replicate 512 0))
                2 (replicate 512 0)) 3 (replicate 512 0)) 2) = Some (replicate 512 0)
   \<and> fst (cache_get (snd (cache_get (cache_put (cache_put (cache_put (cache_new 1024) 1
                (replicate 512 0)) 2 (replicate 512 0)) 3 (replicate 512 0)) 2)) 3)
       = Some (replicate 512 0)"
  by (simp add: cache_get_def cache_put_def cache_new_def remove_existing_def
      evict.simps evict_front_def Let_def)

lemma reput_scenario:
  "store (cache_put (cache_put (cache_put (cache_new 10) 1 [1, 1, 1, 1, 1]) 2 [2, 2, 2, 2, 2])
            1 [3, 3, 3, 3, 3])
     = \<lparr>store_map = [(2, \<lparr>entry_data = [2, 2, 2, 2, 2], entry_size = 5\<rparr>),
                     (1, \<lparr>entry_data = [3, 3, 3, 3, 3], entry_size = 5\<rparr>)],
        order = [2, 1], total_size = 10\<rparr>
   \<and> store (cache_put (cache_put (cache_put (cache_put (cache_new 10) 1 [1, 1, 1, 1, 1])
            2 [2, 2, 2, 2, 2]) 1 [3, 3, 3, 3, 3]) 3 [4, 4, 4, 4, 4])
     = \<lparr>store_map = [(1, \<lparr>entry_data = [3, 3, 3, 3, 3], entry_size = 5\<rparr>),
                     (3, \<lparr>entry_data = [4, 4, 4, 4, 4], entry_size = 5\<rparr>)],
        order = [1, 3], total_size = 10\<rparr>
   \<and> store (cache_put (snd (cache_get (cache_put (cache_put (cache_new 10) 1 [1, 1, 1, 1, 1])
            2 [2, 2, 2, 2, 2]) 1)) 3 [4, 4, 4, 4, 4])
     = \<lparr>store_map = [(1, \<lparr>entry_data = [1, 1, 1, 1, 1], entry_size = 5\<rparr>),
                     (3, \<lparr>entry_data = [4, 4, 4, 4, 4], entry_size = 5\<rparr>)],
        order = [1, 3], total_size = 10\<rparr>"
  by (simp add: cache_get_def cache_put_def cache_new_def remove_existing_def
      evict.simps evict_front_def Let_def)

text \<open>
  C7.  Eviction follows the access order.  A \<open>get\<close> that finds its key returns the
  stored bytes and moves the key to the back of the order queue, the other keys
  keeping their relative order; a \<open>get\<close> that misses changes nothing.  A \<open>put\<close> first
  removes the entry stored under its key: the entry leaves the map, the key leaves
  the queue and the size of the entry is subtracted from \<open>total_size\<close> (in a cache
  that satisfies its invariant exactly that size is freed and the key is nowhere in
  the queue afterwards); without such an entry nothing changes in this step.  Then
  it pops keys from the front of the queue, one per round and only while the new
  entry does not fit and the queue is not empty: after \<open>n\<close> rounds the queue has lost
  its first \<open>n\<close> keys and the map exactly their entries; then the new entry goes to
  the back of the queue if it fits.  With a capacity of 1024 and three entries of 512
  bytes put under the keys 1, 2 and 3, the third \<open>put\<close> evicts key 1: the queue is
  \<open>[2, 3]\<close>, \<open>get(1)\<close> finds nothing, \<open>get(2)\<close> and then \<open>get(3)\<close> find their
  entries.  With a capacity of 10 and entries of 5 bytes, putting key 1 again after
  the keys 1 and 2 replaces its entry and makes it the most recently used, so a \<open>put\<close>
  of key 3 then evicts key 2 and keeps key 1; a \<open>get\<close> of key 1 in place of the second
  \<open>put\<close> protects key 1 in the same way.
\<close>

theorem lru_eviction:
  fixes c :: Cache and k :: key and d :: bytes
  defines "s1 \<equiv> remove_existing k (store c)"
  shows
    "(\<forall>e. map_of (store_map (store c)) k = Some e \<longrightarrow>
         fst (cache_get c k) = Some (entry_data e)
       \<and> order (store (snd (cache_get c k))) = filter (\<lambda>k'. k' \<noteq> k) (order (store c)) @ [k]
       \<and> store_map (store (snd (cache_get c k))) = store_map (store c)
       \<and> total_size (store (snd (cache_get c k))) = total_size (store c))
   \<and> (map_of (store_map (store c)) k = None \<longrightarrow> cache_get c k = (None, c))
   \<and> (\<forall>e. map_of (store_map (store c)) k = Some e \<longrightarrow>
         store_map s1 = AList.delete k (store_map (store c))
       \<and> order s1 = filter (\<lambda>k'. k' \<noteq> k) (order (store c))
       \<and> total_size s1 = total_size (store c) - entry_size e)
   \<and> (map_of (store_map (store c)) k = None \<longrightarrow> s1 = store c)
   \<and> map_of (store_map s1) k = None
   \<and> (cache_inv c \<longrightarrow>
         k \<notin> set (order s1) \<and> store_ok s1
       \<and> (\<forall>e. map_of (store_map (store c)) k = Some e \<longrightarrow>
             total_size s1 + entry_size e = total_size (store c)))
   \<and> (\<exists>n.
        (\<forall>m<n. capacity c < total_size ((evict_front ^^ m) s1) + length d
                \<and> order ((evict_front ^^ m) s1) \<noteq> [])
      \<and> (total_size ((evict_front ^^ n) s1) + length d \<le> capacity c
           \<or> order ((evict_front ^^ n) s1) = [])
      \<and> order ((evict_front ^^ n) s1) = drop n (order s1)
      \<and> store_map ((evict_front ^^ n) s1) =
           filter (\<lambda>(k', e). k' \<notin> set (take n (order s1))) (store_map s1)
      \<and> store (cache_put c k d) =
           (if total_size ((evict_front ^^ n) s1) + length d \<le> capacity c then
              ((evict_front ^^ n) s1)
                \<lparr>store_map := AList.update k \<lparr>entry_data = d, entry_size = length d\<rparr>
                                (store_map ((evict_front ^^ n) s1)),
                 order := order ((evict_front ^^ n) s1) @ [k],
                 total_size := total_size ((evict_front ^^ n) s1) + length d\<rparr>
            else (evict_front ^^ n) s1))
   \<and> order (store (cache_put (cache_put (cache_new 1024) 1 (replicate 512 0)) 2 (replicate 512 0)))
       = [1, 2]
   \<and> order (store (cache_put (cache_put (cache_put (cache_new 1024) 1 (replicate 512 0))
                2 (replicate 512 0)) 3 (replicate 512 0))) = [2, 3]
   \<and> cache_get (cache_put (cache_put (cache_put (cache_new 1024) 1 (replicate 512 0))
                2 (replicate 512 0)) 3 (replicate 512 0)) 1
       = (None, cache_put (cache_put (cache_put (cache_new 1024) 1 (replicate 512 0))
                2 (replicate 512 0)) 3 (replicate 512 0))
   \<and> fst (cache_get (cache_put (cache_put (cache_put (cache_new 1024) 1 (replicate 512 0))
                2 (replicate 512 0)) 3 (replicate 512 0)) 2) = Some (replicate 512 0)
   \<and> fst (cache_get (snd (cache_get (cache_put (cache_put (cache_put (cache_new 1024) 1
                (replicate 512 0)) 2 (replicate 512 0)) 3 (replicate 512 0)) 2)) 3)
       = Some (replicate 512 0)
   \<and> store (cache_put (cache_put (cache_put (cache_new 10) 1 [1, 1, 1, 1, 1]) 2 [2, 2, 2, 2, 2])
            1 [3, 3, 3, 3, 3])
       = \<lparr>store_map = [(2, \<lparr>entry_data = [2, 2, 2, 2, 2], entry_size = 5\<rparr>),
                       (1, \<lparr>entry_data = [3, 3, 3, 3, 3], entry_size = 5\<rparr>)],
          order = [2, 1], total_size = 10\<rparr>
   \<and> store (cache_put (cache_put (cache_put (cache_put (cache_new 10) 1 [1, 1, 1, 1, 1])
            2 [2, 2, 2, 2, 2]) 1 [3, 3, 3, 3, 3]) 3 [4, 4, 4, 4, 4])
       = \<lparr>store_map = [(1, \<lparr>entry_data = [3, 3, 3, 3, 3], entry_size = 5\<rparr>),
                       (3, \<lparr>entry_data = [4, 4, 4, 4, 4], entry_size = 5\<rparr>)],
          order = [1, 3], total_size = 10\<rparr>
   \<and> store (cache_put (snd (cache_get (cache_put (cache_put (cache_new 10) 1 [1, 1, 1, 1, 1])
            2 [2, 2, 2, 2, 2]) 1)) 3 [4, 4, 4, 4, 4])
       = \<lparr>store_map = [(1, \<lparr>entry_data = [1, 1, 1, 1, 1], entry_size = 5\<rparr>),
                       (3, \<lparr>entry_data = [4, 4, 4, 4, 4], entry_size = 5\<rparr>)],
          order = [1, 3], total_size = 10\<rparr>"
proof -
  have hit: "\<forall>e. map_of (store_map (store c)) k = Some e \<longrightarrow>
         fst (cache_get c k) = Some (entry_data e)
       \<and> order (store (snd (cache_get c k))) = filter (\<lambda>k'. k' \<noteq> k) (order (store c)) @ [k]
       \<and> store_map (store (snd (cache_get c k))) = store_map (store c)
       \<and> total_size (store (snd (cache_get c k))) = total_size (store c)"
    by (simp add: cache_get_def)
  have miss: "map_of (store_map (store c)) k = None \<longrightarrow> cache_get c k = (None, c)"
    by (simp add: cache_get_def)
  have rem: "\<forall>e. map_of (store_map (store c)) k = Some e \<longrightarrow>
         store_map s1 = AList.delete k (store_map (store c))
       \<and> order s1 = filter (\<lambda>k'. k' \<noteq> k) (order (store c))
       \<and> total_size s1 = total_size (store c) - entry_size e"
    by (simp add: s1_def remove_existing_def)
  have keep: "map_of (store_map (store c)) k = None \<longrightarrow> s1 = store c"
    by (simp add: s1_def remove_existing_def)
  have gone: "map_of (store_map s1) k = None"
    unfolding s1_def by (rule remove_existing_lookup)
  have inv: "k \<notin> set (order s1) \<and> store_ok s1
       \<and> (\<forall>e. map_of (store_map (store c)) k = Some e \<longrightarrow>
             total_size s1 + entry_size e = total_size (store c))" if "cache_inv c"
  proof -
    from that have ok: "store_ok (store c)" by (simp add: cache_inv_def)
    from store_ok_remove_existing(1,2) [OF ok, of k] remove_existing_frees [OF ok, of k]
    show ?thesis unfolding s1_def by blast
  qed
  obtain n where n: "evict (capacity c) (length d) s1 = (evict_front ^^ n) s1"
      "\<forall>m<n. capacity c < total_size ((evict_front ^^ m) s1) + length d
                \<and> order ((evict_front ^^ m) s1) \<noteq> []"
      "total_size ((evict_front ^^ n) s1) + length d \<le> capacity c
           \<or> order ((evict_front ^^ n) s1) = []"
    using evict_as_funpow [of "capacity c" "length d" s1] by blast
  have put: "store (cache_put c k d) =
           (if total_size ((evict_front ^^ n) s1) + length d \<le> capacity c then
              ((evict_front ^^ n) s1)
                \<lparr>store_map := AList.update k \<lparr>entry_data = d, entry_size = length d\<rparr>
                                (store_map ((evict_front ^^ n) s1)),
                 order := order ((evict_front ^^ n) s1) @ [k],
                 total_size := total_size ((evict_front ^^ n) s1) + length d\<rparr>
            else (evict_front ^^ n) s1)"
    unfolding cache_put_def Let_def s1_def [symmetric] n(1) by simp
  have ex: "\<exists>n.
        (\<forall>m<n. capacity c < total_size ((evict_front ^^ m) s1) + length d
                \<and> order ((evict_front ^^ m) s1) \<noteq> [])
      \<and> (total_size ((evict_front ^^ n) s1) + length d \<le> capacity c
           \<or> order ((evict_front ^^ n) s1) = [])
      \<and> order ((evict_front ^^ n) s1) = drop n (order s1)
      \<and> store_map ((evict_front ^^ n) s1) =
           filter (\<lambda>(k', e). k' \<notin> set (take n (order s1))) (store_map s1)
      \<and> store (cache_put c k d) =
           (if total_size ((evict_front ^^ n) s1) + length d \<le> capacity c then
              ((evict_front ^^ n) s1)
                \<lparr>store_map := AList.update k \<lparr>entry_data = d, entry_size = length d\<rparr>
                                (store_map ((evict_front ^^ n) s1)),
                 order := order ((evict_front ^^ n) s1) @ [k],
                 total_size := total_size ((evict_front ^^ n) s1) + length d\<rparr>
            else (evict_front ^^ n) s1)"
    using n(2,3) put evict_front_pow_order [of n s1] evict_front_pow_map [of n s1]
    by (intro exI [of _ n] conjI)
  from hit miss rem keep gone inv ex lru_scenario reput_scenario
  show ?thesis by (intro conjI) blast+
qed

theorem lru_eviction_witness:
  "order (remove_existing 1
       (store (cache_put (cache_put (cache_new 10) 1 [1, 1, 1, 1, 1]) 2 [2, 2, 2, 2, 2]))) = [2]
   \<and> total_size (remove_existing 1
       (store (cache_put (cache_put (cache_new 10) 1 [1, 1, 1, 1, 1]) 2 [2, 2, 2, 2, 2]))) = 5
   \<and> order (store (snd (cache_get
       (cache_put (cache_put (cache_new 10) 1 [1, 1, 1, 1, 1]) 2 [2, 2, 2, 2, 2]) 1))) = [2, 1]"
proof -
  define c where "c = cache_put (cache_put (cache_new 10) 1 [1, 1, 1, 1, 1]) 2 [2, 2, 2, 2, 2]"
  have st: "store c = \<lparr>store_map = [(1, \<lparr>entry_data = [1, 1, 1, 1, 1], entry_size = 5\<rparr>),
                                   (2, \<lparr>entry_data = [2, 2, 2, 2, 2], entry_size = 5\<rparr>)],
                       order = [1, 2], total_size = 10\<rparr>"
    by (simp add: c_def cache_put_def cache_new_def remove_existing_def evict.simps Let_def)
  have m: "map_of (store_map (store c)) 1 = Some \<lparr>entry_data = [1, 1, 1, 1, 1], entry_size = 5\<rparr>"
    by (simp add: st)
  from lru_eviction [of c 1 "[]"] m
  have "order (store (snd (cache_get c 1))) = filter (\<lambda>k'. k' \<noteq> 1) (order (store c)) @ [1]"
    and "order (remove_existing 1 (store c)) = filter (\<lambda>k'. k' \<noteq> 1) (order (store c))"
    and "total_size (remove_existing 1 (store c))
           = total_size (store c) - entry_size \<lparr>entry_data = [1, 1, 1, 1, 1], entry_size = 5\<rparr>"
    by blast+
  then show ?thesis unfolding c_def [symmetric] by (simp add: st)
qed

section \<open>Properties of chunked delivery\<close>




lemma chunks_from_bound: "chunks_from smp a ms \<Longrightarrow> a \<le> length smp"
proof (induction ms arbitrary: a)
  case Nil
  then show ?case by simp
next
  case (Cons m ms)
  then have "a + length (msg_chunk m) \<le> length smp" by simp
  then show ?case by simp
qed

lemma chunks_from_end: "chunks_from smp (length smp) ms \<Longrightarrow> ms = []"
  by (cases ms) auto

lemma chunks_from_props:
  "chunks_from smp a ms \<Longrightarrow>
   (\<forall>m\<in>set ms. msg_total m = length smp \<and> msg_chunk m \<noteq> []
        \<and> length (msg_chunk m) \<le> CHUNK_SIZE
        \<and> msg_offset m + length (msg_chunk m) \<le> length smp
        \<and> msg_chunk m = take (length (msg_chunk m)) (drop (msg_offset m) smp))
   \<and> (\<forall>i<length ms. msg_offset (ms ! i) = a + sum_list (map (\<lambda>m. length (msg_chunk m)) (take i ms)))
   \<and> a + sum_list (map (\<lambda>m. length (msg_chunk m)) ms) = length smp
   \<and> concat (map msg_chunk ms) = drop a smp"
proof (induction ms arbitrary: a)
  case Nil
  then show ?case by simp
next
  case (Cons m ms)
  let ?l = "length (msg_chunk m)"
  from Cons.prems have h: "msg_offset m = a" "msg_total m = length smp" "msg_chunk m \<noteq> []"
    "?l \<le> CHUNK_SIZE" "msg_chunk m = take ?l (drop a smp)" "chunks_from smp (a + ?l) ms"
    by simp_all
  note ih = Cons.IH [OF h(6)]
  have fit: "a + ?l \<le> length smp" using h(6) by (rule chunks_from_bound)
  have 1: "\<forall>m'\<in>set (m # ms). msg_total m' = length smp \<and> msg_chunk m' \<noteq> []
        \<and> length (msg_chunk m') \<le> CHUNK_SIZE
        \<and> msg_offset m' + length (msg_chunk m') \<le> length smp
        \<and> msg_chunk m' = take (length (msg_chunk m')) (drop (msg_offset m') smp)"
    using ih h fit by auto
  have 2: "msg_offset ((m # ms) ! i) = a + sum_list (map (\<lambda>m. length (msg_chunk m)) (take i (m # ms)))"
    if "i < length (m # ms)" for i
  proof (cases i)
    case 0
    then show ?thesis using h(1) by simp
  next
    case (Suc j)
    with that have "j < length ms" by simp
    with ih have "msg_offset (ms ! j) = a + ?l + sum_list (map (\<lambda>m. length (msg_chunk m)) (take j ms))"
      by blast
    then show ?thesis using Suc by simp
  qed
  have 3: "a + sum_list (map (\<lambda>m. length (msg_chunk m)) (m # ms)) = length smp"
    using ih by simp
  have "concat (map msg_chunk (m # ms)) = take ?l (drop a smp) @ drop (a + ?l) smp"
    using ih h(5) by simp
  also have "\<dots> = drop a smp"
    by (metis add.commute append_take_drop_id drop_drop)
  finally have 4: "concat (map msg_chunk (m # ms)) = drop a smp" .
  from 1 2 3 4 show ?case by blast
qed


lemma buffer_set_nth:
  assumes "offset + length chunk \<le> length buf"
  shows "\<exists>buf'. buffer_set buf chunk offset = Inr buf' \<and> length buf' = length buf
          \<and> (\<forall>i<length buf. buf' ! i =
                (if offset \<le> i \<and> i < offset + length chunk then chunk ! (i - offset)
                 else buf ! i))"
proof -
  let ?b = "take offset buf @ chunk @ drop (offset + length chunk) buf"
  have s: "buffer_set buf chunk offset = Inr ?b" using assms by (simp add: buffer_set_def)
  have l: "length ?b = length buf" using assms by simp
  have n: "?b ! i = (if offset \<le> i \<and> i < offset + length chunk then chunk ! (i - offset)
                 else buf ! i)" if "i < length buf" for i
    using assms that by (auto simp: nth_append min_def)
  from s l n show ?thesis by blast
qed

lemma chunks_from_cover:
  "chunks_from smp a ms \<Longrightarrow> a \<le> i \<Longrightarrow> i < length smp \<Longrightarrow>
   \<exists>m\<in>set ms. msg_offset m \<le> i \<and> i < msg_offset m + length (msg_chunk m)"
proof (induction ms arbitrary: a)
  case Nil
  then show ?case by simp
next
  case (Cons m ms)
  show ?case
  proof (cases "i < a + length (msg_chunk m)")
    case True
    with Cons.prems show ?thesis by auto
  next
    case False
    then have "a + length (msg_chunk m) \<le> i" by simp
    with Cons.IH [of "a + length (msg_chunk m)"] Cons.prems show ?thesis by auto
  qed
qed


lemma chunk_nth:
  assumes "c = take (length c) (drop off smp)" and "off \<le> i" and "i < off + length c"
    and "off + length c \<le> length smp"
  shows "c ! (i - off) = smp ! i"
proof -
  have "c ! (i - off) = take (length c) (drop off smp) ! (i - off)" using assms(1) by simp
  also have "\<dots> = drop off smp ! (i - off)" using assms(2,3) by (intro nth_take) linarith
  also have "\<dots> = smp ! (off + (i - off))" using assms(4) by (intro nth_drop) linarith
  finally show ?thesis using assms(2) by simp
qed

lemma client_handle_any_order:
  "\<forall>m\<in>set ms. msg_chunk m \<noteq> [] \<and> msg_offset m + length (msg_chunk m) \<le> length smp
        \<and> msg_chunk m = take (length (msg_chunk m)) (drop (msg_offset m) smp) \<Longrightarrow>
   ms \<noteq> [] \<Longrightarrow>
   buffer dm = Some buf \<Longrightarrow> length buf = length smp \<Longrightarrow> totalSize dm = length smp \<Longrightarrow>
   receivedSize dm + sum_list (map (\<lambda>m. length (msg_chunk m)) ms) = length smp \<Longrightarrow>
   \<forall>i<length smp. buf ! i = smp ! i
        \<or> (\<exists>m\<in>set ms. msg_offset m \<le> i \<and> i < msg_offset m + length (msg_chunk m)) \<Longrightarrow>
   \<exists>dm'. client_handle dm (map DataEnvelope ms) = Inr dm'
        \<and> buffer dm' = Some smp \<and> receivedSize dm' = length smp
        \<and> delivered dm' = delivered dm @ (if onDataCallback dm then [smp] else [])"
proof (induction ms arbitrary: dm buf)
  case Nil
  then show ?case by simp
next
  case (Cons m rest)
  define l where "l = length (msg_chunk m)"
  define off where "off = msg_offset m"
  from Cons.prems(1) have hm: "msg_chunk m \<noteq> []" "off + l \<le> length smp"
    "msg_chunk m = take (length (msg_chunk m)) (drop off smp)"
    by (simp_all add: l_def off_def)
  have fit: "off + length (msg_chunk m) \<le> length buf"
    using hm(2) Cons.prems(4) by (simp add: l_def)
  from buffer_set_nth [OF fit] obtain buf' where
    bs: "buffer_set buf (msg_chunk m) off = Inr buf'" and bl: "length buf' = length buf"
    and bn: "\<forall>i<length buf. buf' ! i =
                (if off \<le> i \<and> i < off + length (msg_chunk m) then msg_chunk m ! (i - off)
                 else buf ! i)"
    by blast
  have written: "buf' ! i = smp ! i" if "off \<le> i" "i < off + l" for i
  proof -
    have "i < length buf" using that hm(2) Cons.prems(4) by simp
    with bn that have "buf' ! i = msg_chunk m ! (i - off)" by (simp add: l_def)
    also have "\<dots> = smp ! i"
      using hm(3) that hm(2) by (intro chunk_nth) (simp_all add: l_def)
    finally show ?thesis .
  qed
  have kept: "buf' ! i = buf ! i" if "i < length smp" "\<not> (off \<le> i \<and> i < off + l)" for i
    using bn that Cons.prems(4) by (auto simp: l_def)
  define dm1 where "dm1 = dm\<lparr>buffer := Some buf', receivedSize := receivedSize dm + l\<rparr>"
  show ?case
  proof (cases "rest = []")
    case True
    with Cons.prems(6) have full: "receivedSize dm + l = length smp" by (simp add: l_def)
    have "buf' = smp"
    proof (rule nth_equalityI)
      show "length buf' = length smp" using bl Cons.prems(4) by simp
    next
      fix i assume "i < length buf'"
      then have i: "i < length smp" using bl Cons.prems(4) by simp
      show "buf' ! i = smp ! i"
      proof (cases "off \<le> i \<and> i < off + l")
        case True
        then show ?thesis using written by blast
      next
        case False
        with Cons.prems(7) i \<open>rest = []\<close> have "buf ! i = smp ! i"
          by (auto simp: l_def off_def)
        with kept [OF i False] show ?thesis by simp
      qed
    qed
    then show ?thesis
      using True Cons.prems(3,5) bs full
      by (simp add: on_data_def addChunk_def Let_def l_def off_def)
  next
    case False
    then obtain m' rest' where r: "rest = m' # rest'" by (cases rest) auto
    with Cons.prems(1) have "msg_chunk m' \<noteq> []" by simp
    then have "0 < sum_list (map (\<lambda>m. length (msg_chunk m)) rest)" using r by simp
    with Cons.prems(6) have part: "receivedSize dm + l < length smp" by (simp add: l_def)
    have step: "on_data dm m = Inr (False, dm1)"
      using Cons.prems(3,5) bs part
      by (simp add: on_data_def addChunk_def Let_def l_def off_def dm1_def)
    have agree: "\<forall>i<length smp. buf' ! i = smp ! i
        \<or> (\<exists>m\<in>set rest. msg_offset m \<le> i \<and> i < msg_offset m + length (msg_chunk m))"
    proof (intro allI impI)
      fix i assume i: "i < length smp"
      show "buf' ! i = smp ! i
        \<or> (\<exists>m\<in>set rest. msg_offset m \<le> i \<and> i < msg_offset m + length (msg_chunk m))"
      proof (cases "off \<le> i \<and> i < off + l")
        case True
        then show ?thesis using written by blast
      next
        case False
        with Cons.prems(7) i have "buf ! i = smp ! i
          \<or> (\<exists>m\<in>set rest. msg_offset m \<le> i \<and> i < msg_offset m + length (msg_chunk m))"
          by (auto simp: l_def off_def)
        with kept [OF i False] show ?thesis by auto
      qed
    qed
    have "\<exists>dm'. client_handle dm1 (map DataEnvelope rest) = Inr dm'
        \<and> buffer dm' = Some smp \<and> receivedSize dm' = length smp
        \<and> delivered dm' = delivered dm1 @ (if onDataCallback dm1 then [smp] else [])"
    proof (rule Cons.IH [of dm1 buf'])
      show "\<forall>m\<in>set rest. msg_chunk m \<noteq> [] \<and> msg_offset m + length (msg_chunk m) \<le> length smp
        \<and> msg_chunk m = take (length (msg_chunk m)) (drop (msg_offset m) smp)"
        using Cons.prems(1) by simp
      show "rest \<noteq> []" by (rule False)
      show "buffer dm1 = Some buf'" by (simp add: dm1_def)
      show "length buf' = length smp" using bl Cons.prems(4) by simp
      show "totalSize dm1 = length smp" using Cons.prems(5) by (simp add: dm1_def)
      show "receivedSize dm1 + sum_list (map (\<lambda>m. length (msg_chunk m)) rest) = length smp"
        using Cons.prems(6) by (simp add: dm1_def l_def)
      show "\<forall>i<length smp. buf' ! i = smp ! i
        \<or> (\<exists>m\<in>set rest. msg_offset m \<le> i \<and> i < msg_offset m + length (msg_chunk m))"
        by (rule agree)
    qed
    then show ?thesis using step by (simp add: dm1_def)
  qed
qed

lemma client_handle_permuted:
  assumes "chunks_from smp 0 ms" and "smp \<noteq> []" and "mset ms' = mset ms"
  shows "\<exists>dm'. client_handle (clear dm) (map DataEnvelope ms') = Inr dm'
        \<and> buffer dm' = Some smp \<and> receivedSize dm' = length smp
        \<and> delivered dm' = delivered dm @ (if onDataCallback dm then [smp] else [])"
proof -
  note p = chunks_from_props [OF assms(1)]
  have set_eq: "set ms' = set ms" using assms(3) by (rule mset_eq_setD)
  have sum_eq: "sum_list (map (\<lambda>m. length (msg_chunk m)) ms')
                  = sum_list (map (\<lambda>m. length (msg_chunk m)) ms)"
    using assms(3) by (metis mset_map sum_mset_sum_list)
  from assms(1,2) have "ms \<noteq> []" by (cases ms) auto
  then have ne: "ms' \<noteq> []" using set_eq by auto
  then obtain m rest where ms': "ms' = m # rest" by (cases ms') auto
  then have "m \<in> set ms" using set_eq by auto
  with p have t: "msg_total m = length smp" by blast
  let ?dm = "initialize (clear dm) (length smp)"
  have "on_data (clear dm) m = on_data ?dm m"
    using t by (simp add: on_data_def clear_def initialize_def)
  then have eq: "client_handle (clear dm) (map DataEnvelope ms') = client_handle ?dm (map DataEnvelope ms')"
    unfolding ms' by simp
  have "\<exists>dm'. client_handle ?dm (map DataEnvelope ms') = Inr dm'
        \<and> buffer dm' = Some smp \<and> receivedSize dm' = length smp
        \<and> delivered dm' = delivered ?dm @ (if onDataCallback ?dm then [smp] else [])"
  proof (rule client_handle_any_order [of ms' smp ?dm "replicate (length smp) 0"])
    show "\<forall>m\<in>set ms'. msg_chunk m \<noteq> [] \<and> msg_offset m + length (msg_chunk m) \<le> length smp
        \<and> msg_chunk m = take (length (msg_chunk m)) (drop (msg_offset m) smp)"
      using p set_eq by blast
    show "ms' \<noteq> []" by (rule ne)
    show "buffer ?dm = Some (replicate (length smp) 0)" by (simp add: initialize_def)
    show "length (replicate (length smp) (0::byte)) = length smp" by simp
    show "totalSize ?dm = length smp" by (simp add: initialize_def)
    show "receivedSize ?dm + sum_list (map (\<lambda>m. length (msg_chunk m)) ms') = length smp"
      using p sum_eq by (simp add: initialize_def)
    show "\<forall>i<length smp. replicate (length smp) 0 ! i = smp ! i
        \<or> (\<exists>m\<in>set ms'. msg_offset m \<le> i \<and> i < msg_offset m + length (msg_chunk m))"
      using chunks_from_cover [OF assms(1)] set_eq by auto
  qed
  then show ?thesis unfolding eq by (simp add: initialize_def clear_def)
qed



text \<open>
  Had the same data messages reached the client inside envelopes of type \<open>data\<close>, a
  client starting from a cleared data manager would, for a sample that is not empty
  and in whatever order they arrive, end with a buffer that equals the sample and
  call a registered callback once, with that buffer.
\<close>

lemma enveloped_chunks_reassemble:
  assumes "chunks_from smp 0 ms" and "smp \<noteq> []" and "mset ms' = mset ms"
  shows "\<exists>dm'. client_handle (clear dm) (map DataEnvelope ms') = Inr dm'
        \<and> buffer dm' = Some smp
        \<and> delivered dm' = delivered dm @ (if onDataCallback dm then [smp] else [])"
  using client_handle_permuted [OF assms, of dm] by blast



section \<open>Properties of the session\<close>

lemma handle_message_invalid:
  assumes "decode_message ext d = None
         \<or> (\<exists>m. decode_message ext d = Some m \<and> type_field m = OtherType)
         \<or> (\<exists>m. decode_message ext d = Some m \<and> type_field m = SampleRequest
                \<and> decode_request ext (payload m) = None)"
  shows "handle_message ext n st file_id d sent = (Err InvalidMessage, st, sent)"
  using assms by (auto simp: handle_message_def)

lemma handle_message_control:
  assumes "decode_message ext d = Some m" and "type_field m = Control"
  shows "snd (snd (handle_message ext n st file_id d sent)) = sent"
  using assms by (simp add: handle_message_def split: prod.splits)

lemma stream_loop_only_data:
  "only_data sent \<Longrightarrow> only_data (snd (stream_loop chan smp offset sent))"
proof (induction "length smp - offset" arbitrary: offset sent rule: less_induct)
  case less
  show ?case
  proof (cases "offset < length smp")
    case False
    then show ?thesis using less.prems by (subst stream_loop.simps) (simp add: Let_def)
  next
    case True
    define stop where "stop = min (offset + CHUNK_SIZE) (length smp)"
    define m where "m = \<lparr>msg_offset = offset, msg_total = length smp,
               msg_chunk = take (stop - offset) (drop offset smp)\<rparr>"
    have lt: "length smp - stop < length smp - offset"
      using True by (auto simp: stop_def CHUNK_SIZE_def min_def)
    have "only_data (sent @ [DataFrame m])" using less.prems by (simp add: only_data_def)
    from less.hyps [OF lt this]
    have ih: "only_data (snd (stream_loop chan smp stop (sent @ [DataFrame m])))" .
    have "stream_loop chan smp offset sent =
            (if chan (length sent) then stream_loop chan smp stop (sent @ [DataFrame m])
             else (Err ConnectionClosed, sent))"
      using True by (subst stream_loop.simps) (simp add: Let_def slice_def stop_def m_def)
    then show ?thesis using ih less.prems by simp
  qed
qed

lemma handle_message_only_data:
  "only_data sent \<Longrightarrow> only_data (snd (snd (handle_message ext n st file_id d sent)))"
proof -
  assume od: "only_data sent"
  have "only_data sent'" if "stream_loop chan smp 0 sent = (r, sent')" for chan smp r sent'
    using stream_loop_only_data [OF od, of chan smp 0] that by simp
  then show ?thesis
    using od
    by (auto simp: handle_message_def stream_sample_def
        split: option.splits MessageType.splits prod.splits outcome.splits)
qed

lemma recv_task_only_data:
  "only_data sent \<Longrightarrow> only_data (snd (snd (recv_task ext st file_id n msgs sent)))"
proof (induction ext st file_id n msgs sent rule: recv_task.induct)
  case (2 ext st file_id n d msgs sent)
  obtain r st' sent' where h: "handle_message ext n st file_id d sent = (r, st', sent')"
    by (cases "handle_message ext n st file_id d sent") auto
  have od: "only_data sent'"
    using handle_message_only_data [OF "2.prems", of ext n st file_id d] h by simp
  show ?case
  proof (cases r)
    case (Ok u)
    with "2.IH" [OF h [symmetric] _ _ od] h show ?thesis by simp
  next
    case (Err e)
    with h od show ?thesis by simp
  next
    case (Panicked p)
    with h od show ?thesis by simp
  qed
qed simp_all

text \<open>
  C9.  A message whose envelope does not decode, whose type is neither a sample
  request nor a control message, or whose sample request does not decode, makes
  \<open>handle_message\<close> fail with \<open>InvalidMessage\<close>; the receive task then ends the session
  and nothing is sent: no error frame reaches the client.  A control message is
  passed to \<open>handle_control_message\<close>, which has no access to the channel, so no
  frame is sent for it either, whatever its command.  In every session each frame
  that is sent is a data frame.
\<close>

theorem invalid_message_sends_no_error_frame:
  "((decode_message ext d = None
      \<or> (\<exists>m. decode_message ext d = Some m \<and> type_field m = OtherType)
      \<or> (\<exists>m. decode_message ext d = Some m \<and> type_field m = SampleRequest
             \<and> decode_request ext (payload m) = None))
     \<longrightarrow> handle_socket ext st file_id (Binary d # rest)
           = (HandlerFailed (Err InvalidMessage), st, []))
   \<and> ((\<exists>m. decode_message ext d = Some m \<and> type_field m = Control)
     \<longrightarrow> snd (snd (handle_socket ext st file_id [Binary d])) = [])
   \<and> only_data (snd (snd (handle_socket ext st file_id msgs)))"
proof -
  have a: "handle_socket ext st file_id (Binary d # rest)
           = (HandlerFailed (Err InvalidMessage), st, [])"
    if "decode_message ext d = None
      \<or> (\<exists>m. decode_message ext d = Some m \<and> type_field m = OtherType)
      \<or> (\<exists>m. decode_message ext d = Some m \<and> type_field m = SampleRequest
             \<and> decode_request ext (payload m) = None)"
    using handle_message_invalid [OF that, of 0 st file_id "[]"]
    by (simp add: handle_socket_def)
  have b: "snd (snd (handle_socket ext st file_id [Binary d])) = []"
    if "\<exists>m. decode_message ext d = Some m \<and> type_field m = Control"
  proof -
    from that obtain m where m: "decode_message ext d = Some m" "type_field m = Control"
      by blast
    obtain r st' sent' where h: "handle_message ext 0 st file_id d [] = (r, st', sent')"
      by (cases "handle_message ext 0 st file_id d []") auto
    with handle_message_control [OF m, of 0 st file_id "[]"] have "sent' = []" by simp
    with h show ?thesis by (cases r) (simp_all add: handle_socket_def)
  qed
  have c: "only_data (snd (snd (handle_socket ext st file_id msgs)))"
    unfolding handle_socket_def by (rule recv_task_only_data) (simp add: only_data_def)
  from a b c show ?thesis by blast
qed

theorem invalid_message_sends_no_error_frame_witness:
  "handle_socket
     \<lparr>decode_message = (\<lambda>d. None), decode_request = (\<lambda>p. None),
      handle_control_message = (\<lambda>st p. (Ok (), st)), make_key = (\<lambda>file_id n. 0),
      rng = (\<lambda>n i m. m), tx_open = (\<lambda>n. True)\<rparr>
     \<lparr>config = \<lparr>max_sample_size = 134217728\<rparr>, files = (\<lambda>file_id. Missing),
      cache = cache_new 1024\<rparr>
     ''f'' [Binary [1, 2, 3]]
   = (HandlerFailed (Err InvalidMessage),
      \<lparr>config = \<lparr>max_sample_size = 134217728\<rparr>, files = (\<lambda>file_id. Missing),
       cache = cache_new 1024\<rparr>,
      [])"
  using invalid_message_sends_no_error_frame
    [of "\<lparr>decode_message = (\<lambda>d. None), decode_request = (\<lambda>p. None),
      handle_control_message = (\<lambda>st p. (Ok (), st)), make_key = (\<lambda>file_id n. 0),
      rng = (\<lambda>n i m. m), tx_open = (\<lambda>n. True)\<rparr>" "[1, 2, 3]"
      "\<lparr>config = \<lparr>max_sample_size = 134217728\<rparr>, files = (\<lambda>file_id. Missing),
      cache = cache_new 1024\<rparr>" "''f''" "[]" "[]"]
  by simp

section \<open>Properties of the data manager\<close>

lemma addChunk_result:
  assumes "addChunk dm off ch = Inr (complete, dm')"
  shows "complete = (totalSize dm \<le> receivedSize dm + length ch)"
    and "receivedSize dm' = receivedSize dm + length ch"
    and "totalSize dm' = totalSize dm"
    and "onDataCallback dm' = onDataCallback dm"
    and "\<exists>buf buf'. buffer dm = Some buf \<and> buffer_set buf ch off = Inr buf' \<and> buffer dm' = Some buf'
           \<and> delivered dm' = delivered dm @ (if complete \<and> onDataCallback dm then [buf'] else [])"
  using assms
  by (auto simp: addChunk_def Let_def split: option.splits sum.splits if_splits)

lemma addChunks_result:
  "addChunks dm cs = Inr dm' \<Longrightarrow>
   receivedSize dm' = receivedSize dm + sum_list (map (\<lambda>(off, ch). length ch) cs)
   \<and> totalSize dm' = totalSize dm \<and> onDataCallback dm' = onDataCallback dm"
proof (induction cs arbitrary: dm)
  case Nil
  then show ?case by simp
next
  case (Cons p cs)
  obtain off ch where p: "p = (off, ch)" by (cases p)
  from Cons.prems p obtain b dm1 where
    s: "addChunk dm off ch = Inr (b, dm1)" and r: "addChunks dm1 cs = Inr dm'"
    by (auto split: sum.splits)
  from Cons.IH [OF r] addChunk_result(2-4) [OF s] p show ?case by simp
qed

text \<open>
  C10.  After \<open>initialize(totalSize)\<close> and any sequence of \<open>addChunk\<close> calls that did not
  throw, a further \<open>addChunk\<close> that does not throw returns true exactly when the
  lengths of all chunks added since \<open>initialize\<close>, its own included, add up to at least
  \<open>totalSize\<close>, whatever the offsets were; the registered callback is called exactly
  then, with the buffer.  Two chunks of two bytes, both written at offset 0 of a
  buffer of four bytes, complete the transfer although the last two bytes were never
  written.
\<close>

theorem completion_by_byte_count:
  assumes "addChunks (initialize dm0 total_sz) cs = Inr dm"
    and "addChunk dm off ch = Inr (complete, dm')"
  shows "complete = (total_sz \<le> sum_list (map (\<lambda>(off, ch). length ch) cs) + length ch)
       \<and> (\<exists>buf. buffer dm' = Some buf
             \<and> delivered dm' =
                 delivered dm @ (if complete \<and> onDataCallback dm0 then [buf] else []))
       \<and> (\<exists>d1 d2. addChunks (initialize (onData new_DataManager) 4) [(0, [1, 2])] = Inr d1
             \<and> addChunk d1 0 [1, 2] = Inr (True, d2)
             \<and> buffer d2 = Some [1, 2, 0, 0]
             \<and> delivered d2 = [[1, 2, 0, 0]])"
proof -
  have r: "receivedSize dm = sum_list (map (\<lambda>(off, ch). length ch) cs)"
    and t: "totalSize dm = total_sz" and c: "onDataCallback dm = onDataCallback dm0"
    using addChunks_result [OF assms(1)] by (simp_all add: initialize_def)
  have a: "complete = (total_sz \<le> sum_list (map (\<lambda>(off, ch). length ch) cs) + length ch)"
    using addChunk_result(1) [OF assms(2)] r t by simp
  have b: "\<exists>buf. buffer dm' = Some buf
             \<and> delivered dm' =
                 delivered dm @ (if complete \<and> onDataCallback dm0 then [buf] else [])"
    using addChunk_result(5) [OF assms(2)] c by auto
  have e: "\<exists>d1 d2. addChunks (initialize (onData new_DataManager) 4) [(0, [1, 2])] = Inr d1
             \<and> addChunk d1 0 [1, 2] = Inr (True, d2)
             \<and> buffer d2 = Some [1, 2, 0, 0]
             \<and> delivered d2 = [[1, 2, 0, 0]]"
    by (simp add: initialize_def onData_def new_DataManager_def addChunk_def buffer_set_def
        Let_def numeral_eq_Suc)
  from a b e show ?thesis by blast
qed

theorem completion_by_byte_count_witness:
  "\<exists>dm'. addChunk (initialize (onData new_DataManager) 3) 1 [7, 8, 9] = Inl RangeError
     \<and> addChunk (initialize (onData new_DataManager) 3) 0 [7, 8, 9] = Inr (True, dm')"
proof -
  obtain dm' b where s: "addChunk (initialize (onData new_DataManager) 3) 0 [7, 8, 9] = Inr (b, dm')"
    by (simp add: initialize_def onData_def new_DataManager_def addChunk_def buffer_set_def Let_def)
  have 0: "addChunks (initialize (onData new_DataManager) 3) [] = Inr (initialize (onData new_DataManager) 3)"
    by simp
  from completion_by_byte_count [OF 0 s] have "b" by simp
  moreover have "addChunk (initialize (onData new_DataManager) 3) 1 [7, 8, 9] = Inl RangeError"
    by (simp add: initialize_def onData_def new_DataManager_def addChunk_def buffer_set_def Let_def)
  ultimately show ?thesis using s by auto
qed

end
